theory Spec2Isabelle
  imports Main "HOL-Library.Word"
begin

section \<open>The supervisor of mesos-dns (app.go)\<close>

text \<open>
  The embedding follows \<^verbatim>\<open>app.go\<close>. A Go channel is a record of its capacity, its
  buffered values and its closed flag; a \<^verbatim>\<open>nil\<close> channel is \<open>None\<close>. A panic is a
  value \<open>Inl (Panic msg)\<close>. What the supervisor does to its collaborators (the resolver,
  the go-restful container, the logger, the error handler, the reload timer, the plugins)
  is recorded, in program order, in the list \<open>calls\<close>.
\<close>

subsection \<open>Channels\<close>

record 'a chan =
  ch_cap :: nat
  ch_buf :: "'a list"
  ch_closed :: bool

text \<open>\<^verbatim>\<open>make(chan T, n)\<close>\<close>

definition make_chan :: "nat \<Rightarrow> 'a chan" where
  "make_chan n = \<lparr>ch_cap = n, ch_buf = [], ch_closed = False\<rparr>"

text \<open>
  A receive can proceed when a value is available or the channel is closed. The channels of
  the supervisor that have capacity 0 (\<^verbatim>\<open>ready\<close>, \<^verbatim>\<open>done\<close>) are never sent on: they are
  only closed. For a channel that a collaborator sends on, \<open>ch_buf\<close> holds the values a
  receive can take, in order: those buffered and those offered by a blocked sender.
\<close>

definition can_recv :: "'a chan \<Rightarrow> bool" where
  "can_recv ch = (ch_buf ch \<noteq> [] \<or> ch_closed ch)"

text \<open>
  A send on a buffered channel proceeds when there is room; otherwise it would block.
  \<^verbatim>\<open>app.go\<close> closes no channel that it sends on.
\<close>

definition can_send :: "'a chan \<Rightarrow> bool" where
  "can_send ch = (length (ch_buf ch) < ch_cap ch)"

definition send :: "'a \<Rightarrow> 'a chan \<Rightarrow> 'a chan option" where
  "send v ch = (if can_send ch then Some (ch\<lparr>ch_buf := ch_buf ch @ [v]\<rparr>) else None)"

text \<open>
  A receive: \<open>None\<close> when it would block; otherwise the value, or \<open>None\<close> for the zero
  value that a closed and drained channel yields, and the channel after the receive.
\<close>

definition recv :: "'a chan \<Rightarrow> ('a option \<times> 'a chan) option" where
  "recv ch =
     (case ch_buf ch of
        [] \<Rightarrow> (if ch_closed ch then Some (None, ch) else None)
      | v # vs \<Rightarrow> Some (Some v, ch\<lparr>ch_buf := vs\<rparr>))"

definition close_chan :: "'a chan \<Rightarrow> 'a chan" where
  "close_chan ch = ch\<lparr>ch_closed := True\<rparr>"

subsection \<open>Collaborators and faults\<close>

text \<open>
  \<open>Deadlock\<close> stands for a goroutine that blocks for ever on a send that no receiver can
  take.
\<close>

datatype fault = Panic string | Deadlock

datatype reloader = Reloader nat
datatype filter_fn = Filter nat
datatype webservice = WebService nat
datatype err = Err string

text \<open>
  A plugin is an interface value. What \<^verbatim>\<open>app.go\<close> sees of it is what its \<^verbatim>\<open>Start\<close> does
  with the plugin context (a sequence of calls of the registration surface) and whether
  \<^verbatim>\<open>Start\<close> returns an error channel or \<^verbatim>\<open>nil\<close>.
\<close>

datatype reg_op =
    OnPreload reloader
  | OnPostload reloader
  | AddFilter "filter_fn option"
  | RegisterWS webservice

record plugin =
  p_id :: nat
  p_start :: "reg_op list"
  p_errch :: bool

datatype call =
    ResolverOnPreload reloader
  | ResolverOnPostload reloader
  | RestfulAdd webservice
  | ResolverNew
  | LogError string "string list"
  | LogVerbose string "string list"
  | PluginStart string nat
  | GoErrForwarder string
  | GoDoneWatcher string
  | ErrHandler string "err option"
  | ResolverLaunchDNS
  | ResolverLaunchZK "64 word"
  | ResolverReloadBegin
  | ResolverReloadEnd
  | PrintCurLog
  | TimerAfterFunc "64 word"
  | TimerReset "64 word"

subsection \<open>Slices of strings on a heap\<close>

text \<open>
  The heap is the list of the backing arrays allocated so far; an array's address is its
  index. A slice is \<^verbatim>\<open>nil\<close> or a window (array, offset, length) on an array.
\<close>

type_synonym heap = "string list list"

datatype slice = NilSlice | Slice nat nat nat

fun len :: "slice \<Rightarrow> nat" where
  "len NilSlice = 0"
| "len (Slice a off n) = n"

fun elems :: "heap \<Rightarrow> slice \<Rightarrow> string list" where
  "elems h NilSlice = []"
| "elems h (Slice a off n) = take n (drop off (h ! a))"

fun slice_ok :: "heap \<Rightarrow> slice \<Rightarrow> bool" where
  "slice_ok h NilSlice = True"
| "slice_ok h (Slice a off n) = (a < length h \<and> off + n \<le> length (h ! a))"

text \<open>\<^verbatim>\<open>make([]string, n)\<close>: a new array of \<open>n\<close> empty strings.\<close>

definition make_slice :: "nat \<Rightarrow> heap \<Rightarrow> slice \<times> heap" where
  "make_slice n h = (Slice (length h) 0 n, h @ [replicate n []])"

text \<open>\<^verbatim>\<open>copy(dst, src)\<close>: the first \<open>min (len dst) (len src)\<close> elements.\<close>

fun copy_slice :: "slice \<Rightarrow> slice \<Rightarrow> heap \<Rightarrow> heap" where
  "copy_slice NilSlice src h = h"
| "copy_slice (Slice a off n) src h =
     (let k = min n (len src);
          vs = take k (elems h src);
          arr = h ! a
      in h[a := take off arr @ vs @ drop (off + k) arr])"

text \<open>\<^verbatim>\<open>s[i] = v\<close>: panics out of range.\<close>

fun set_elem :: "slice \<Rightarrow> nat \<Rightarrow> string \<Rightarrow> heap \<Rightarrow> fault + heap" where
  "set_elem NilSlice i v h = Inl (Panic ''index out of range'')"
| "set_elem (Slice a off n) i v h =
     (if i < n then Inr (h[a := (h ! a)[off + i := v]])
      else Inl (Panic ''index out of range''))"

subsection \<open>The configuration and the supervisor\<close>

text \<open>
  \<^verbatim>\<open>records.Config\<close> is declared outside \<^verbatim>\<open>app.go\<close>; these are the fields \<^verbatim>\<open>app.go\<close>
  reads. \<^verbatim>\<open>Masters\<close> and \<^verbatim>\<open>Resolvers\<close> are \<^verbatim>\<open>[]string\<close>. \<^verbatim>\<open>Plugins\<close> is ranged
  over by \<^verbatim>\<open>initialize\<close>, which reads \<^verbatim>\<open>Name\<close> and \<^verbatim>\<open>Settings\<close> of each element: a
  sequence of entries, \<open>None\<close> when \<^verbatim>\<open>nil\<close>. \<^verbatim>\<open>RefreshSeconds\<close> is a Go \<^verbatim>\<open>int\<close>
  (64 bits).
\<close>

record plugin_config =
  pc_Name :: string
  pc_Settings :: string

record config =
  Masters :: slice
  Resolvers :: slice
  Plugins :: "plugin_config list option"
  Zk :: string
  RefreshSeconds :: "64 word"
  DnsOn :: bool
  HttpOn :: bool

text \<open>
  The struct \<^verbatim>\<open>app\<close>; its field \<^verbatim>\<open>done\<close> is \<open>done_ch\<close> here. Its \<^verbatim>\<open>resolver\<close>
  and \<^verbatim>\<open>errHandler\<close> fields are collaborators: the calls they receive are recorded in
  \<open>calls\<close>, which, with the heap, is the rest of the world the supervisor acts on.
\<close>

record app =
  config :: config
  filters :: "filter_fn list"
  ready :: "unit chan"
  done_ch :: "unit chan"
  calls :: "call list"
  heap :: heap

definition emit :: "call \<Rightarrow> app \<Rightarrow> app" where
  "emit x c = c\<lparr>calls := calls c @ [x]\<rparr>"

subsection \<open>The registration surface\<close>

text \<open>
  Each operation is a \<^verbatim>\<open>select\<close> on \<^verbatim>\<open>c.ready\<close> with a \<^verbatim>\<open>default\<close> branch: the receive
  is taken when it can proceed, that is when \<^verbatim>\<open>ready\<close> is closed.
\<close>

definition app_OnPreload :: "reloader \<Rightarrow> app \<Rightarrow> fault + app" where
  "app_OnPreload r c =
     (if can_recv (ready c)
      then Inl (Panic ''cannot OnPreload after initialization has completed'')
      else Inr (emit (ResolverOnPreload r) c))"

definition app_OnPostload :: "reloader \<Rightarrow> app \<Rightarrow> fault + app" where
  "app_OnPostload r c =
     (if can_recv (ready c)
      then Inl (Panic ''cannot OnPostload after initialization has completed'')
      else Inr (emit (ResolverOnPostload r) c))"

definition app_AddFilter :: "filter_fn option \<Rightarrow> app \<Rightarrow> fault + app" where
  "app_AddFilter f c =
     (if can_recv (ready c)
      then Inl (Panic ''cannot AddFilter after initialization has completed'')
      else (case f of
              None \<Rightarrow> Inr c
            | Some g \<Rightarrow> Inr (c\<lparr>filters := filters c @ [g]\<rparr>)))"

definition app_RegisterWS :: "webservice \<Rightarrow> app \<Rightarrow> fault + app" where
  "app_RegisterWS ws c =
     (if can_recv (ready c)
      then Inl (Panic ''cannot RegisterWS after initialization has completed'')
      else Inr (emit (RestfulAdd ws) c))"

fun register :: "reg_op \<Rightarrow> app \<Rightarrow> fault + app" where
  "register (OnPreload r) c = app_OnPreload r c"
| "register (OnPostload r) c = app_OnPostload r c"
| "register (AddFilter f) c = app_AddFilter f c"
| "register (RegisterWS ws) c = app_RegisterWS ws c"

text \<open>The panic message of each operation kind.\<close>

fun misuse :: "reg_op \<Rightarrow> fault" where
  "misuse (OnPreload r) = Panic ''cannot OnPreload after initialization has completed''"
| "misuse (OnPostload r) = Panic ''cannot OnPostload after initialization has completed''"
| "misuse (AddFilter f) = Panic ''cannot AddFilter after initialization has completed''"
| "misuse (RegisterWS ws) = Panic ''cannot RegisterWS after initialization has completed''"


fun register_all :: "reg_op list \<Rightarrow> app \<Rightarrow> fault + app" where
  "register_all [] c = Inr c"
| "register_all (x # xs) c =
     (case register x c of Inl f \<Rightarrow> Inl f | Inr c' \<Rightarrow> register_all xs c')"

subsection \<open>The Config accessor\<close>

text \<open>
  \<^verbatim>\<open>cfg := c.config\<close> copies the struct, so \<open>cfg\<close> shares the backing arrays of its slices
  with \<^verbatim>\<open>c.config\<close> until the two \<^verbatim>\<open>make\<close> and \<^verbatim>\<open>copy\<close>. The result \<^verbatim>\<open>&cfg\<close> points to
  a struct of its own, so the snapshot is the struct value.
\<close>

definition app_Config :: "app \<Rightarrow> config \<times> app" where
  "app_Config c =
     (let cfg = config c;
          cfg = cfg\<lparr>Plugins := None\<rparr>;
          (m, h1) = make_slice (len (Masters (config c))) (heap c);
          cfg = cfg\<lparr>Masters := m\<rparr>;
          h2 = copy_slice (Masters cfg) (Masters (config c)) h1;
          (r, h3) = make_slice (len (Resolvers (config c))) h2;
          cfg = cfg\<lparr>Resolvers := r\<rparr>;
          h4 = copy_slice (Resolvers cfg) (Resolvers (config c)) h3
      in (cfg, c\<lparr>heap := h4\<rparr>))"

text \<open>
  What a caller can do to a snapshot it holds: store into an element of one of its two
  slices, or assign a field of the struct (here: \<^verbatim>\<open>nil\<close> to a slice, any value to
  \<^verbatim>\<open>Plugins\<close> and to \<^verbatim>\<open>Zk\<close>). Only the stores reach the heap.
\<close>

datatype mutation =
    StoreMaster nat string
  | StoreResolver nat string
  | ClearMasters
  | ClearResolvers
  | AssignPlugins "plugin_config list option"
  | AssignZk string

fun mutate :: "mutation \<Rightarrow> config \<times> heap \<Rightarrow> fault + config \<times> heap" where
  "mutate (StoreMaster i v) (snap, h) =
     (case set_elem (Masters snap) i v h of Inl f \<Rightarrow> Inl f | Inr h' \<Rightarrow> Inr (snap, h'))"
| "mutate (StoreResolver i v) (snap, h) =
     (case set_elem (Resolvers snap) i v h of Inl f \<Rightarrow> Inl f | Inr h' \<Rightarrow> Inr (snap, h'))"
| "mutate ClearMasters (snap, h) = Inr (snap\<lparr>Masters := NilSlice\<rparr>, h)"
| "mutate ClearResolvers (snap, h) = Inr (snap\<lparr>Resolvers := NilSlice\<rparr>, h)"
| "mutate (AssignPlugins p) (snap, h) = Inr (snap\<lparr>Plugins := p\<rparr>, h)"
| "mutate (AssignZk z) (snap, h) = Inr (snap\<lparr>Zk := z\<rparr>, h)"

fun mutate_all :: "mutation list \<Rightarrow> config \<times> heap \<Rightarrow> fault + config \<times> heap" where
  "mutate_all [] sh = Inr sh"
| "mutate_all (mu # mus) sh =
     (case mutate mu sh of Inl f \<Rightarrow> Inl f | Inr sh' \<Rightarrow> mutate_all mus sh')"

text \<open>The value of a configuration: its fields, with the slices read off the heap.\<close>

definition cfg_value ::
  "heap \<Rightarrow> config \<Rightarrow>
     string list \<times> string list \<times> plugin_config list option \<times> string \<times> 64 word \<times> bool \<times> bool"
where
  "cfg_value h cfg =
     (elems h (Masters cfg), elems h (Resolvers cfg), Plugins cfg, Zk cfg,
      RefreshSeconds cfg, DnsOn cfg, HttpOn cfg)"

text \<open>The value that a call of the accessor returns.\<close>

definition Config_value ::
  "app \<Rightarrow>
     string list \<times> string list \<times> plugin_config list option \<times> string \<times> 64 word \<times> bool \<times> bool"
where
  "Config_value c = (case app_Config c of (snap, c') \<Rightarrow> cfg_value (heap c') snap)"

text \<open>The backing array of a slice.\<close>

fun backing :: "slice \<Rightarrow> nat option" where
  "backing NilSlice = None"
| "backing (Slice a off n) = Some a"

text \<open>The slices of a snapshot lie in arrays allocated at address \<open>n\<close> or later.\<close>

definition owned :: "nat \<Rightarrow> config \<Rightarrow> bool" where
  "owned n snap =
     ((case backing (Masters snap) of None \<Rightarrow> True | Some a \<Rightarrow> n \<le> a) \<and>
      (case backing (Resolvers snap) of None \<Rightarrow> True | Some a \<Rightarrow> n \<le> a))"

subsection \<open>Initialization\<close>

text \<open>
  The functions of other packages that \<^verbatim>\<open>app.go\<close> calls are parameters:
  \<^verbatim>\<open>records.SetConfig(*cjson)\<close> (it builds the configuration on the heap),
  \<^verbatim>\<open>plugins.New\<close>, \<^verbatim>\<open>resolver.NewAPIPlugin\<close>, and the channels that
  \<^verbatim>\<open>resolver.LaunchDNS\<close> and \<^verbatim>\<open>resolver.LaunchZK\<close> return.
\<close>

record env =
  SetConfig :: "heap \<Rightarrow> config \<times> heap"
  plugins_New :: "string \<Rightarrow> string \<Rightarrow> err + plugin"
  NewAPIPlugin :: plugin
  LaunchDNS :: "err chan option"
  LaunchZK :: "unit chan option \<times> err chan option"

fun err_string :: "err \<Rightarrow> string" where
  "err_string (Err m) = m"

definition launchPlugin :: "string \<Rightarrow> plugin \<Rightarrow> app \<Rightarrow> fault + app" where
  "launchPlugin pluginName p c =
     (let c1 = emit (LogVerbose ''starting plugin %q'' [pluginName]) c;
          c2 = emit (PluginStart pluginName (p_id p)) c1
      in case register_all (p_start p) c2 of
           Inl f \<Rightarrow> Inl f
         | Inr c3 \<Rightarrow>
             Inr (emit (GoDoneWatcher pluginName)
                    (if p_errch p then emit (GoErrForwarder pluginName) c3 else c3)))"

text \<open>The loop over \<^verbatim>\<open>c.config.Plugins\<close>.\<close>

fun launch_third_party :: "env \<Rightarrow> plugin_config list \<Rightarrow> app \<Rightarrow> fault + app" where
  "launch_third_party e [] c = Inr c"
| "launch_third_party e (pconfig # rest) c =
     (let pluginName = pc_Name pconfig
      in if pluginName = []
         then launch_third_party e rest
                (emit (LogError ''failed to register plugin with empty name'' []) c)
         else (case plugins_New e pluginName (pc_Settings pconfig) of
                 Inl er \<Rightarrow>
                   launch_third_party e rest
                     (emit (LogError ''failed to create plugin: %v'' [err_string er]) c)
               | Inr p \<Rightarrow>
                   (case launchPlugin pluginName p c of
                      Inl f \<Rightarrow> Inl f
                    | Inr c' \<Rightarrow> launch_third_party e rest c')))"

text \<open>
  \<^verbatim>\<open>defer close(c.ready)\<close> runs when \<^verbatim>\<open>initialize\<close> returns. When it panics the panic
  leaves \<^verbatim>\<open>newApp\<close> too, and no caller gets the supervisor.
\<close>

definition initialize :: "env \<Rightarrow> app \<Rightarrow> fault + app" where
  "initialize e c =
     (if can_recv (ready c) then Inl (Panic ''app already initialized'')
      else
        (let (cfg, h) = SetConfig e (heap c);
             c1 = emit ResolverNew (c\<lparr>config := cfg, heap := h\<rparr>);
             r1 = (if HttpOn (config c1)
                   then launchPlugin ''HTTP server'' (NewAPIPlugin e) c1
                   else Inr c1)
         in case r1 of
              Inl f \<Rightarrow> Inl f
            | Inr c2 \<Rightarrow>
                (case launch_third_party e
                        (case Plugins (config c2) of None \<Rightarrow> [] | Some ps \<Rightarrow> ps) c2 of
                   Inl f \<Rightarrow> Inl f
                 | Inr c3 \<Rightarrow> Inr (c3\<lparr>ready := close_chan (ready c3)\<rparr>))))"

text \<open>The zero value of \<^verbatim>\<open>records.Config\<close>, and \<^verbatim>\<open>newApp\<close> in a world with heap \<open>h\<close>.\<close>

definition zero_config :: config where
  "zero_config =
     \<lparr>Masters = NilSlice, Resolvers = NilSlice, Plugins = None, Zk = [],
      RefreshSeconds = 0, DnsOn = False, HttpOn = False\<rparr>"

definition fresh :: "heap \<Rightarrow> app" where
  "fresh h =
     \<lparr>config = zero_config, filters = [], ready = make_chan 0, done_ch = make_chan 0,
      calls = [], heap = h\<rparr>"

definition newApp :: "env \<Rightarrow> heap \<Rightarrow> fault + app" where
  "newApp e h = initialize e (fresh h)"

text \<open>The plugins started, in order: the \<^verbatim>\<open>Start\<close> calls of a call list.\<close>

fun started :: "call list \<Rightarrow> (string \<times> nat) list" where
  "started [] = []"
| "started (PluginStart n i # xs) = (n, i) # started xs"
| "started (x # xs) = started xs"


text \<open>The errors logged, in order: the \<^verbatim>\<open>logging.Error.Printf\<close> calls of a call list.\<close>

fun logged :: "call list \<Rightarrow> (string \<times> string list) list" where
  "logged [] = []"
| "logged (LogError fmt args # xs) = (fmt, args) # logged xs"
| "logged (x # xs) = logged xs"

text \<open>
  An entry of the plugin settings is valid when its name is not empty and
  \<^verbatim>\<open>plugins.New\<close> resolves it. \<open>launchable\<close> lists the valid entries with their plugins,
  and \<open>rejected\<close> the messages for the others, both in the order of the list.
\<close>

fun launchable :: "env \<Rightarrow> plugin_config list \<Rightarrow> (string \<times> nat) list" where
  "launchable e [] = []"
| "launchable e (pc # pcs) =
     (if pc_Name pc = [] then launchable e pcs
      else (case plugins_New e (pc_Name pc) (pc_Settings pc) of
              Inl er \<Rightarrow> launchable e pcs
            | Inr p \<Rightarrow> (pc_Name pc, p_id p) # launchable e pcs))"

fun rejected :: "env \<Rightarrow> plugin_config list \<Rightarrow> (string \<times> string list) list" where
  "rejected e [] = []"
| "rejected e (pc # pcs) =
     (if pc_Name pc = [] then (''failed to register plugin with empty name'', []) # rejected e pcs
      else (case plugins_New e (pc_Name pc) (pc_Settings pc) of
              Inl er \<Rightarrow> (''failed to create plugin: %v'', [err_string er]) # rejected e pcs
            | Inr p \<Rightarrow> rejected e pcs))"

subsection \<open>The leader watch and the reloader\<close>

definition zkInitialDetectionTimeout :: "64 word" where
  "zkInitialDetectionTimeout = 30 * 1000000000"

text \<open>
  \<^verbatim>\<open>launchServer(enabled, f)\<close>: the result \<^verbatim>\<open>errCh\<close> keeps its zero value \<^verbatim>\<open>nil\<close> when the
  server is not enabled.
\<close>

definition launchServer ::
  "bool \<Rightarrow> (app \<Rightarrow> err chan option \<times> app) \<Rightarrow> app \<Rightarrow> err chan option \<times> app"
where
  "launchServer enabled f c = (if enabled then f c else (None, c))"

text \<open>
  \<^verbatim>\<open>beginLeaderWatch\<close>: in the second branch \<^verbatim>\<open>zkErr\<close> keeps its zero value \<^verbatim>\<open>nil\<close>, and
  \<^verbatim>\<open>leader <- struct{}{}\<close> is a blocking send.
\<close>

definition beginLeaderWatch ::
  "env \<Rightarrow> app \<Rightarrow> fault + (unit chan option \<times> err chan option) \<times> app"
where
  "beginLeaderWatch e c =
     (if Zk (config c) \<noteq> []
      then Inr (LaunchZK e, emit (ResolverLaunchZK zkInitialDetectionTimeout) c)
      else (case send () (make_chan 1) of
              None \<Rightarrow> Inl Deadlock
            | Some leader \<Rightarrow> Inr ((Some leader, None), c)))"

text \<open>
  The reloader: the channel \<^verbatim>\<open>reloadSignal\<close>, the goroutine that \<^verbatim>\<open>launchReloader\<close> starts
  (its program counter) and whether \<^verbatim>\<open>reloadTimer\<close> is pending.
\<close>

datatype worker_pc = W_Start | W_Await | W_Reloading | W_Exit

record reloader_state =
  reloadSignal :: "unit chan"
  worker :: worker_pc
  timer_armed :: bool

definition launchReloader :: reloader_state where
  "launchReloader = \<lparr>reloadSignal = make_chan 1, worker = W_Start, timer_armed = False\<rparr>"

text \<open>
  \<^verbatim>\<open>tryReload\<close>: a \<^verbatim>\<open>select\<close> with a send case and an empty \<^verbatim>\<open>default\<close>. The channel
  \<^verbatim>\<open>reloadSignal\<close> is never closed.
\<close>

definition tryReload :: "reloader_state \<Rightarrow> reloader_state" where
  "tryReload r =
     (case send () (reloadSignal r) of
        Some ch \<Rightarrow> r\<lparr>reloadSignal := ch\<rparr>
      | None \<Rightarrow> r)"

text \<open>\<^verbatim>\<open>time.Second * time.Duration(c.config.RefreshSeconds)\<close>, in nanoseconds (an int64).\<close>

definition reloadTimeout :: "config \<Rightarrow> 64 word" where
  "reloadTimeout cfg = 1000000000 * RefreshSeconds cfg"

subsection \<open>The running system\<close>

record sys =
  sapp :: app
  newLeader :: "unit chan option"
  dnsErr :: "err chan option"
  zkErr :: "err chan option"
  rl :: reloader_state

text \<open>
  \<^verbatim>\<open>run\<close> up to its loop. \<^verbatim>\<open>defer close(c.done)\<close> is registered here and runs when
  \<^verbatim>\<open>run\<close> unwinds (\<open>run_unwind\<close>); the loop has no exit, so that is on a panic in it.
\<close>

definition run_begin :: "env \<Rightarrow> app \<Rightarrow> fault + sys" where
  "run_begin e c =
     (if can_recv (ready c)
      then (if can_recv (done_ch c) then Inl (Panic ''run already completed'')
            else
              (let (dns, c1) =
                     launchServer (DnsOn (config c))
                       (\<lambda>c. (LaunchDNS e, emit ResolverLaunchDNS c)) c
               in case beginLeaderWatch e c1 of
                    Inl f \<Rightarrow> Inl f
                  | Inr ((leader, zk), c2) \<Rightarrow>
                      Inr \<lparr>sapp = c2, newLeader = leader, dnsErr = dns, zkErr = zk,
                           rl = launchReloader\<rparr>))
      else Inl (Panic ''cannot run, not yet initialized''))"

definition run_unwind :: "sys \<Rightarrow> app" where
  "run_unwind s = (sapp s)\<lparr>done_ch := close_chan (done_ch (sapp s))\<rparr>"

text \<open>
  One iteration of the loop of \<^verbatim>\<open>run\<close>, for the case that the \<^verbatim>\<open>select\<close> takes; \<open>None\<close>
  when that case cannot proceed. A receive from a \<^verbatim>\<open>nil\<close> channel never proceeds.
\<close>

datatype select_case = CaseNewLeader | CaseDnsErr | CaseZkErr

fun loop_iter :: "select_case \<Rightarrow> sys \<Rightarrow> sys option" where
  "loop_iter CaseNewLeader s =
     (case newLeader s of
        None \<Rightarrow> None
      | Some ch \<Rightarrow>
          (case recv ch of
             None \<Rightarrow> None
           | Some (v, ch') \<Rightarrow> Some (s\<lparr>newLeader := Some ch', rl := tryReload (rl s)\<rparr>)))"
| "loop_iter CaseDnsErr s =
     (case dnsErr s of
        None \<Rightarrow> None
      | Some ch \<Rightarrow>
          (case recv ch of
             None \<Rightarrow> None
           | Some (v, ch') \<Rightarrow>
               Some (s\<lparr>dnsErr := Some ch', sapp := emit (ErrHandler ''DNS server'' v) (sapp s)\<rparr>)))"
| "loop_iter CaseZkErr s =
     (case zkErr s of
        None \<Rightarrow> None
      | Some ch \<Rightarrow>
          (case recv ch of
             None \<Rightarrow> None
           | Some (v, ch') \<Rightarrow>
               Some (s\<lparr>zkErr := Some ch', sapp := emit (ErrHandler ''ZK watcher'' v) (sapp s)\<rparr>)))"

text \<open>
  One step of the reloader's goroutine; \<open>None\<close> when it is blocked or has ended. The call
  of \<^verbatim>\<open>c.resolver.Reload()\<close> takes two steps, its start and its return, so that a state
  can be inside a reload; \<^verbatim>\<open>Reload\<close> is taken to return (were it to panic,
  \<^verbatim>\<open>util.HandleCrash\<close> would end the goroutine). The goroutine computes its local
  \<^verbatim>\<open>reloadTimeout\<close> once, from \<^verbatim>\<open>c.config\<close>; no step of the system assigns
  \<^verbatim>\<open>c.config\<close>, and the model reads the value off the configuration where it is used.
\<close>

definition worker_step :: "sys \<Rightarrow> sys option" where
  "worker_step s =
     (case worker (rl s) of
        W_Start \<Rightarrow>
          Some (s\<lparr>sapp := emit (TimerAfterFunc (reloadTimeout (config (sapp s)))) (sapp s),
                  rl := (rl s)\<lparr>worker := W_Await, timer_armed := True\<rparr>\<rparr>)
      | W_Await \<Rightarrow>
          (case recv (reloadSignal (rl s)) of
             None \<Rightarrow> None
           | Some (None, ch) \<Rightarrow> Some (s\<lparr>rl := (rl s)\<lparr>worker := W_Exit\<rparr>\<rparr>)
           | Some (Some v, ch) \<Rightarrow>
               Some (s\<lparr>sapp := emit ResolverReloadBegin (sapp s),
                       rl := (rl s)\<lparr>reloadSignal := ch, worker := W_Reloading\<rparr>\<rparr>))
      | W_Reloading \<Rightarrow>
          Some (s\<lparr>sapp :=
                    emit (TimerReset (reloadTimeout (config (sapp s))))
                      (emit PrintCurLog (emit ResolverReloadEnd (sapp s))),
                  rl := (rl s)\<lparr>worker := W_Await, timer_armed := True\<rparr>\<rparr>)
      | W_Exit \<Rightarrow> None)"

text \<open>The timer runs \<^verbatim>\<open>tryReload\<close> when it expires.\<close>

definition timer_fire :: "sys \<Rightarrow> sys option" where
  "timer_fire s =
     (if timer_armed (rl s)
      then Some (s\<lparr>rl := (tryReload (rl s))\<lparr>timer_armed := False\<rparr>\<rparr>)
      else None)"

text \<open>
  The steps of the system: an iteration of the loop, a step of the reloader's goroutine,
  the expiry of the timer, and what the collaborators do: the DNS server and the ZK
  watcher offer a value on their channels. The ZK watcher exists when \<^verbatim>\<open>LaunchZK\<close> was
  called; the channel \<^verbatim>\<open>leader\<close> of the other branch has no sender after
  \<^verbatim>\<open>beginLeaderWatch\<close> returns.
\<close>

datatype event =
    Loop select_case
  | Worker
  | TimerFire
  | DnsSends err
  | ZkLeads
  | ZkSends err

definition offer :: "'a \<Rightarrow> 'a chan option \<Rightarrow> 'a chan option option" where
  "offer v c = (case c of None \<Rightarrow> None | Some ch \<Rightarrow> Some (Some (ch\<lparr>ch_buf := ch_buf ch @ [v]\<rparr>)))"

fun step :: "event \<Rightarrow> sys \<Rightarrow> sys option" where
  "step (Loop k) s = loop_iter k s"
| "step Worker s = worker_step s"
| "step TimerFire s = timer_fire s"
| "step (DnsSends er) s =
     (case offer er (dnsErr s) of None \<Rightarrow> None | Some c \<Rightarrow> Some (s\<lparr>dnsErr := c\<rparr>))"
| "step ZkLeads s =
     (if Zk (config (sapp s)) = [] then None
      else (case offer () (newLeader s) of None \<Rightarrow> None | Some c \<Rightarrow> Some (s\<lparr>newLeader := c\<rparr>)))"
| "step (ZkSends er) s =
     (if Zk (config (sapp s)) = [] then None
      else (case offer er (zkErr s) of None \<Rightarrow> None | Some c \<Rightarrow> Some (s\<lparr>zkErr := c\<rparr>)))"

fun exec :: "event list \<Rightarrow> sys \<Rightarrow> sys option" where
  "exec [] s = Some s"
| "exec (ev # evs) s = (case step ev s of None \<Rightarrow> None | Some s' \<Rightarrow> exec evs s')"

text \<open>
  A burst of calls of \<^verbatim>\<open>tryReload\<close> (\<open>True\<close>) during which the reloader's goroutine may
  step (\<open>False\<close>) but does not take a request from the channel.
\<close>

fun burst :: "bool list \<Rightarrow> sys \<Rightarrow> sys option" where
  "burst [] s = Some s"
| "burst (True # bs) s = burst bs (s\<lparr>rl := tryReload (rl s)\<rparr>)"
| "burst (False # bs) s =
     (if worker (rl s) = W_Await then None
      else (case worker_step s of None \<Rightarrow> None | Some s' \<Rightarrow> burst bs s'))"

text \<open>The reloader's goroutine runs alone until it blocks (at most \<open>n\<close> steps).\<close>

fun drain :: "nat \<Rightarrow> sys \<Rightarrow> sys" where
  "drain 0 s = s"
| "drain (Suc n) s = (case worker_step s of None \<Rightarrow> s | Some s' \<Rightarrow> drain n s')"

text \<open>The reloads completed, and the requests pending.\<close>

definition reloads :: "sys \<Rightarrow> nat" where
  "reloads s = count_list (calls (sapp s)) ResolverReloadEnd"

definition pending :: "sys \<Rightarrow> nat" where
  "pending s = length (ch_buf (reloadSignal (rl s)))"

text \<open>
  The reloads in progress after a list of calls: \<open>None\<close> when a reload started while
  another was in progress, or one returned that had not started.
\<close>

fun in_progress :: "call list \<Rightarrow> nat \<Rightarrow> nat option" where
  "in_progress [] n = Some n"
| "in_progress (ResolverReloadBegin # xs) n = (if n = 0 then in_progress xs 1 else None)"
| "in_progress (ResolverReloadEnd # xs) n = (if n = 1 then in_progress xs 0 else None)"
| "in_progress (x # xs) n = in_progress xs n"

text \<open>What holds of the reloader in every state of a run.\<close>

definition reloader_ok :: "reloader_state \<Rightarrow> bool" where
  "reloader_ok r =
     (ch_cap (reloadSignal r) = 1 \<and> length (ch_buf (reloadSignal r)) \<le> 1 \<and>
      \<not> ch_closed (reloadSignal r) \<and> worker r \<noteq> W_Exit)"


text \<open>The leadership events that the loop can take now.\<close>

definition leader_avail :: "sys \<Rightarrow> nat" where
  "leader_avail s = (case newLeader s of None \<Rightarrow> 0 | Some ch \<Rightarrow> length (ch_buf ch))"

subsection \<open>Example worlds\<close>

text \<open>
  \<open>env0\<close>: an empty configuration, no plugin known. \<open>envZ\<close>: a ZK endpoint is configured.
  \<open>envP\<close>: HTTP on and four plugin entries, the first with an empty name, the second
  unknown to \<^verbatim>\<open>plugins.New\<close>.
\<close>

definition env0 :: env where
  "env0 =
     \<lparr>SetConfig = (\<lambda>h. (zero_config, h)),
      plugins_New = (\<lambda>n st. Inl (Err ''unknown plugin'')),
      NewAPIPlugin = \<lparr>p_id = 0, p_start = [], p_errch = False\<rparr>,
      LaunchDNS = None,
      LaunchZK = (None, None)\<rparr>"

definition envZ :: env where
  "envZ =
     env0\<lparr>SetConfig := (\<lambda>h. (zero_config\<lparr>Zk := ''zk://10.0.0.1:2181/mesos''\<rparr>, h)),
          LaunchZK := (Some (make_chan 0), Some (make_chan 0))\<rparr>"

definition cfgP :: config where
  "cfgP =
     zero_config
       \<lparr>HttpOn := True,
        Plugins :=
          Some [\<lparr>pc_Name = [], pc_Settings = ''{}''\<rparr>,
                \<lparr>pc_Name = ''bad'', pc_Settings = ''{}''\<rparr>,
                \<lparr>pc_Name = ''one'', pc_Settings = ''{}''\<rparr>,
                \<lparr>pc_Name = ''two'', pc_Settings = ''{}''\<rparr>]\<rparr>"

definition envP :: env where
  "envP =
     env0\<lparr>SetConfig := (\<lambda>h. (cfgP, h)),
          plugins_New :=
            (\<lambda>n st. if n = ''bad'' then Inl (Err ''unknown plugin'')
                     else Inr \<lparr>p_id = (if n = ''one'' then 1 else 2),
                              p_start = [AddFilter (Some (Filter (length n)))],
                              p_errch = True\<rparr>)\<rparr>"

text \<open>A supervisor whose configuration has two masters and one resolver on the heap.\<close>

definition appM :: app where
  "appM =
     (fresh [[''10.0.0.1'', ''10.0.0.2'', ''8.8.8.8'']])
       \<lparr>config := zero_config\<lparr>Masters := Slice 0 0 2, Resolvers := Slice 0 2 1\<rparr>,
        ready := close_chan (make_chan 0)\<rparr>"

text \<open>The supervisor that \<open>newApp env0 []\<close> returns, and the system that its \<^verbatim>\<open>run\<close> starts.\<close>

definition app1 :: app where
  "app1 = (fresh [])\<lparr>calls := [ResolverNew], ready := close_chan (make_chan 0)\<rparr>"

definition sys1 :: sys where
  "sys1 =
     \<lparr>sapp = app1, newLeader = Some \<lparr>ch_cap = 1, ch_buf = [()], ch_closed = False\<rparr>,
      dnsErr = None, zkErr = None, rl = launchReloader\<rparr>"

text \<open>
  The supervisor that \<open>newApp envZ []\<close> returns, and the system that its \<^verbatim>\<open>run\<close> starts.
\<close>

definition appZ :: app where
  "appZ =
     (fresh [])\<lparr>config := zero_config\<lparr>Zk := ''zk://10.0.0.1:2181/mesos''\<rparr>,
               calls := [ResolverNew], ready := close_chan (make_chan 0)\<rparr>"

definition sysZ :: sys where
  "sysZ =
     \<lparr>sapp = emit (ResolverLaunchZK zkInitialDetectionTimeout) appZ,
      newLeader = Some (make_chan 0), dnsErr = None, zkErr = Some (make_chan 0),
      rl = launchReloader\<rparr>"

subsection \<open>Invariants of a run\<close>

text \<open>
  With no ZK endpoint configured: the error channel is \<^verbatim>\<open>nil\<close> and the leader channel is
  open.
\<close>

definition static_inv :: "sys \<Rightarrow> bool" where
  "static_inv s =
     (Zk (config (sapp s)) = [] \<and> zkErr s = None \<and>
      (case newLeader s of None \<Rightarrow> False | Some ch \<Rightarrow> \<not> ch_closed ch))"

text \<open>No reload starts or returns in a list of calls.\<close>

definition quiet :: "call list \<Rightarrow> bool" where
  "quiet xs = (ResolverReloadBegin \<notin> set xs \<and> ResolverReloadEnd \<notin> set xs)"

text \<open>
  The calls of \<^verbatim>\<open>Reload\<close> are well bracketed, and one is in progress when the reloader's
  goroutine is inside \<^verbatim>\<open>Reload\<close>.
\<close>

definition reload_inv :: "sys \<Rightarrow> bool" where
  "reload_inv s =
     (in_progress (calls (sapp s)) 0 = Some (if worker (rl s) = W_Reloading then 1 else 0))"

text \<open>The reloads completed, counting the one in progress.\<close>

definition potential :: "sys \<Rightarrow> nat" where
  "potential s = reloads s + (if worker (rl s) = W_Reloading then 1 else 0)"

subsection \<open>An example run\<close>

text \<open>
  \<open>envR\<close>: DNS on, a refresh period of 60 seconds, no ZK endpoint, no plugin. \<open>appR\<close> is
  the supervisor that \<open>newApp envR []\<close> returns and \<open>sysR\<close> the system that its \<^verbatim>\<open>run\<close>
  starts. In \<open>sysF\<close> the timer has expired and the reloader's goroutine is inside
  \<^verbatim>\<open>Reload\<close>; \<open>sysB\<close> is \<open>sysF\<close> after three calls of \<^verbatim>\<open>tryReload\<close>, during which that
  reload has returned.
\<close>

definition envR :: env where
  "envR =
     env0\<lparr>SetConfig := (\<lambda>h. (zero_config\<lparr>RefreshSeconds := 60, DnsOn := True\<rparr>, h)),
          LaunchDNS := Some (make_chan 0)\<rparr>"

definition appR :: app where
  "appR =
     (fresh [])\<lparr>config := zero_config\<lparr>RefreshSeconds := 60, DnsOn := True\<rparr>,
               calls := [ResolverNew], ready := close_chan (make_chan 0)\<rparr>"

definition sysR :: sys where
  "sysR =
     \<lparr>sapp = emit ResolverLaunchDNS appR,
      newLeader = Some \<lparr>ch_cap = 1, ch_buf = [()], ch_closed = False\<rparr>,
      dnsErr = Some (make_chan 0), zkErr = None, rl = launchReloader\<rparr>"

definition sysF :: sys where
  "sysF =
     sysR\<lparr>sapp :=
            appR\<lparr>calls :=
                   [ResolverNew, ResolverLaunchDNS, TimerAfterFunc 60000000000,
                    ResolverReloadBegin]\<rparr>,
          rl := \<lparr>reloadSignal = make_chan 1, worker = W_Reloading, timer_armed = False\<rparr>\<rparr>"

definition sysB :: sys where
  "sysB =
     sysR\<lparr>sapp :=
            appR\<lparr>calls :=
                   [ResolverNew, ResolverLaunchDNS, TimerAfterFunc 60000000000,
                    ResolverReloadBegin, ResolverReloadEnd, PrintCurLog,
                    TimerReset 60000000000]\<rparr>,
          rl := \<lparr>reloadSignal = \<lparr>ch_cap = 1, ch_buf = [()], ch_closed = False\<rparr>,
                 worker = W_Await, timer_armed = True\<rparr>\<rparr>"

section \<open>The registration surface is closed by the ready signal\<close>

lemma closed_can_recv: "ch_closed ch \<Longrightarrow> can_recv ch"
  by (simp add: can_recv_def)

lemma fresh_not_ready: "\<not> can_recv (ready (fresh h))"
  by (simp add: fresh_def make_chan_def can_recv_def)

text \<open>
  C1. Once the ready signal is closed, each of the four registration operations panics
  with its own message, whatever its argument. While the ready signal is open, every
  call returns, and it has registered its argument: the call of the resolver's
  \<^verbatim>\<open>OnPreload\<close> or \<^verbatim>\<open>OnPostload\<close> with the transform, or of go-restful's \<^verbatim>\<open>Add\<close> with
  the web service, is the last of the calls made to the collaborators, and a filter is
  the last of the filters; nothing else of the supervisor changes.
\<close>

theorem registration_gate:
  "(ch_closed (ready c) \<longrightarrow> register op c = Inl (misuse op)) \<and>
   (\<not> can_recv (ready c) \<longrightarrow>
      (\<exists>c'. register op c = Inr c') \<and>
      register (OnPreload r) c = Inr (c\<lparr>calls := calls c @ [ResolverOnPreload r]\<rparr>) \<and>
      register (OnPostload r) c = Inr (c\<lparr>calls := calls c @ [ResolverOnPostload r]\<rparr>) \<and>
      register (AddFilter (Some f)) c = Inr (c\<lparr>filters := filters c @ [f]\<rparr>) \<and>
      register (RegisterWS ws) c = Inr (c\<lparr>calls := calls c @ [RestfulAdd ws]\<rparr>))"
proof (intro conjI impI)
  assume "ch_closed (ready c)"
  then have "can_recv (ready c)" by (rule closed_can_recv)
  then show "register op c = Inl (misuse op)"
    by (cases op)
      (simp_all add: app_OnPreload_def app_OnPostload_def app_AddFilter_def app_RegisterWS_def)
next
  assume o: "\<not> can_recv (ready c)"
  then show "register (OnPreload r) c = Inr (c\<lparr>calls := calls c @ [ResolverOnPreload r]\<rparr>)"
    and "register (OnPostload r) c = Inr (c\<lparr>calls := calls c @ [ResolverOnPostload r]\<rparr>)"
    and "register (AddFilter (Some f)) c = Inr (c\<lparr>filters := filters c @ [f]\<rparr>)"
    and "register (RegisterWS ws) c = Inr (c\<lparr>calls := calls c @ [RestfulAdd ws]\<rparr>)"
    by (simp_all add: app_OnPreload_def app_OnPostload_def app_AddFilter_def app_RegisterWS_def
        emit_def)
  from o show "\<exists>c'. register op c = Inr c'"
    by (cases op)
      (auto simp: app_OnPreload_def app_OnPostload_def app_AddFilter_def app_RegisterWS_def
        split: option.splits)
qed

theorem registration_gate_witness:
  "ch_closed (ready ((fresh [])\<lparr>ready := close_chan (make_chan 0)\<rparr>)) \<and>
   register (AddFilter None) ((fresh [])\<lparr>ready := close_chan (make_chan 0)\<rparr>) =
     Inl (Panic ''cannot AddFilter after initialization has completed'') \<and>
   register (RegisterWS (WebService 7)) ((fresh [])\<lparr>ready := close_chan (make_chan 0)\<rparr>) =
     Inl (Panic ''cannot RegisterWS after initialization has completed'') \<and>
   \<not> can_recv (ready (fresh [])) \<and>
   register (OnPreload (Reloader 1)) (fresh []) =
     Inr ((fresh [])\<lparr>calls := [ResolverOnPreload (Reloader 1)]\<rparr>) \<and>
   register (OnPostload (Reloader 2)) (fresh []) =
     Inr ((fresh [])\<lparr>calls := [ResolverOnPostload (Reloader 2)]\<rparr>) \<and>
   register (AddFilter (Some (Filter 3))) (fresh []) =
     Inr ((fresh [])\<lparr>filters := [Filter 3]\<rparr>) \<and>
   register (RegisterWS (WebService 7)) (fresh []) =
     Inr ((fresh [])\<lparr>calls := [RestfulAdd (WebService 7)]\<rparr>)"
proof -
  let ?r = "(fresh [])\<lparr>ready := close_chan (make_chan 0)\<rparr>"
  have a: "ch_closed (ready ?r)"
    by (simp add: close_chan_def)
  have b: "\<not> can_recv (ready (fresh []))"
    by (rule fresh_not_ready)
  have e: "calls (fresh []) = []" "filters (fresh []) = []"
    by (simp_all add: fresh_def)
  from a registration_gate [where c = ?r and op = "AddFilter None"]
  have 1: "register (AddFilter None) ?r =
             Inl (Panic ''cannot AddFilter after initialization has completed'')"
    by simp
  from a registration_gate [where c = ?r and op = "RegisterWS (WebService 7)"]
  have 2: "register (RegisterWS (WebService 7)) ?r =
             Inl (Panic ''cannot RegisterWS after initialization has completed'')"
    by simp
  from b registration_gate
    [where c = "fresh []" and r = "Reloader 1" and f = "Filter 3" and ws = "WebService 7"]
  have 3: "register (OnPreload (Reloader 1)) (fresh []) =
             Inr ((fresh [])\<lparr>calls := [ResolverOnPreload (Reloader 1)]\<rparr>)"
    and 4: "register (AddFilter (Some (Filter 3))) (fresh []) =
             Inr ((fresh [])\<lparr>filters := [Filter 3]\<rparr>)"
    and 5: "register (RegisterWS (WebService 7)) (fresh []) =
             Inr ((fresh [])\<lparr>calls := [RestfulAdd (WebService 7)]\<rparr>)"
    unfolding e by simp_all
  from b registration_gate [where c = "fresh []" and r = "Reloader 2"]
  have 6: "register (OnPostload (Reloader 2)) (fresh []) =
             Inr ((fresh [])\<lparr>calls := [ResolverOnPostload (Reloader 2)]\<rparr>)"
    unfolding e by simp
  from a b 1 2 3 4 5 6 show ?thesis by blast
qed

lemma AddFilter_sequence:
  "\<not> can_recv (ready c) \<Longrightarrow>
     register_all (map AddFilter fs) c = Inr (c\<lparr>filters := filters c @ [g. Some g \<leftarrow> fs]\<rparr>)"
proof (induction fs arbitrary: c)
  case Nil
  then show ?case by simp
next
  case (Cons x xs)
  show ?case
  proof (cases x)
    case None
    with Cons show ?thesis by (simp add: app_AddFilter_def)
  next
    case (Some g)
    let ?c = "c\<lparr>filters := filters c @ [g]\<rparr>"
    have "\<not> can_recv (ready ?c)" using Cons.prems by simp
    from Cons.IH [OF this] Some Cons.prems show ?thesis by (simp add: app_AddFilter_def)
  qed
qed

text \<open>
  C10. While the ready signal is open, \<^verbatim>\<open>AddFilter(nil)\<close> returns and leaves the supervisor
  as it was; a filter that is not \<^verbatim>\<open>nil\<close> becomes the last of the filters; and after any
  sequence of calls the filters are the old ones followed by the arguments that are not
  \<^verbatim>\<open>nil\<close>, in the order of the calls.
\<close>

theorem AddFilter_nil_noop:
  "\<not> can_recv (ready c) \<Longrightarrow>
     app_AddFilter None c = Inr c \<and>
     app_AddFilter (Some f) c = Inr (c\<lparr>filters := filters c @ [f]\<rparr>) \<and>
     register_all (map AddFilter fs) c = Inr (c\<lparr>filters := filters c @ [g. Some g \<leftarrow> fs]\<rparr>)"
  by (simp add: app_AddFilter_def AddFilter_sequence)

theorem AddFilter_nil_noop_witness:
  "\<not> can_recv (ready (fresh [])) \<and>
   app_AddFilter None (fresh []) = Inr (fresh []) \<and>
   register_all (map AddFilter [Some (Filter 1), None, Some (Filter 2)]) (fresh []) =
     Inr ((fresh [])\<lparr>filters := [Filter 1, Filter 2]\<rparr>)"
proof -
  have b: "\<not> can_recv (ready (fresh []))"
    by (rule fresh_not_ready)
  have f: "filters (fresh []) = []"
    by (simp add: fresh_def)
  have g: "[g. Some g \<leftarrow> [Some (Filter 1), None, Some (Filter 2)]] = [Filter 1, Filter 2]"
    by simp
  from b AddFilter_nil_noop [OF b, where fs = "[Some (Filter 1), None, Some (Filter 2)]"]
  show ?thesis unfolding f g by (simp del: register_all.simps list.map)
qed

section \<open>The gate of run\<close>

lemma newApp_env0: "newApp env0 [] = Inr app1"
  by (simp add: newApp_def initialize_def env0_def fresh_def app1_def zero_config_def
      can_recv_def make_chan_def emit_def close_chan_def)

lemma app1_facts:
  "can_recv (ready app1)" "\<not> can_recv (done_ch app1)" "DnsOn (config app1) = False"
  "Zk (config app1) = []"
  by (simp_all add: app1_def fresh_def can_recv_def make_chan_def close_chan_def zero_config_def)

lemma run_begin_app1: "run_begin env0 app1 = Inr sys1"
  by (simp add: run_begin_def app1_facts launchServer_def beginLeaderWatch_def send_def
      can_send_def make_chan_def sys1_def)

lemma beginLeaderWatch_app:
  "beginLeaderWatch e c = Inr (r, c') \<Longrightarrow>
     ready c' = ready c \<and> done_ch c' = done_ch c \<and> config c' = config c"
  by (auto simp: beginLeaderWatch_def emit_def split: if_splits option.splits)

lemma run_begin_app:
  "run_begin e c = Inr s \<Longrightarrow>
     ready (sapp s) = ready c \<and> done_ch (sapp s) = done_ch c \<and> config (sapp s) = config c"
  by (auto simp: run_begin_def launchServer_def emit_def split: if_splits sum.splits prod.splits
      dest!: beginLeaderWatch_app)

lemma step_app:
  "step ev s = Some s' \<Longrightarrow>
     ready (sapp s') = ready (sapp s) \<and> done_ch (sapp s') = done_ch (sapp s) \<and>
     config (sapp s') = config (sapp s)"
  apply (cases ev)
  subgoal for k by (cases k) (auto simp: emit_def split: option.splits)
  by (auto simp: worker_step_def timer_fire_def emit_def
      split: option.splits worker_pc.splits if_splits)

lemma exec_app:
  "exec es s = Some s' \<Longrightarrow>
     ready (sapp s') = ready (sapp s) \<and> done_ch (sapp s') = done_ch (sapp s) \<and>
     config (sapp s') = config (sapp s)"
proof (induction es arbitrary: s)
  case Nil
  then show ?case by simp
next
  case (Cons ev evs)
  then obtain s1 where 1: "step ev s = Some s1" and 2: "exec evs s1 = Some s'"
    by (auto split: option.splits)
  from Cons.IH [OF 2] step_app [OF 1] show ?case by simp
qed

text \<open>
  C3, as the claim states it, fails: \<^verbatim>\<open>run\<close> tests \<^verbatim>\<open>done\<close>, which is closed when \<^verbatim>\<open>run\<close>
  unwinds and not when it starts. In the supervisor that \<open>newApp env0 []\<close> returns, the
  first \<^verbatim>\<open>run\<close> reaches its loop in the state \<open>sys1\<close>; a second call of \<^verbatim>\<open>run\<close> on that
  supervisor, while the first is in its loop, passes the gate and starts the servers again.
\<close>

theorem second_run_passes_gate:
  "newApp env0 [] = Inr app1 \<and> run_begin env0 app1 = Inr sys1 \<and>
   run_begin env0 (sapp sys1) = Inr sys1"
  by (simp add: newApp_env0 run_begin_app1 sys1_def)

text \<open>
  C3, amended. \<^verbatim>\<open>run\<close> panics when the ready signal is not closed. It panics when the
  ready and the done signal are both closed; in particular a call of \<^verbatim>\<open>run\<close> panics when
  an earlier \<^verbatim>\<open>run\<close> of the same supervisor has completed, after any steps of its loop.
\<close>

theorem run_gate:
  "(\<not> can_recv (ready c) \<longrightarrow> run_begin e c = Inl (Panic ''cannot run, not yet initialized'')) \<and>
   (can_recv (ready c) \<and> can_recv (done_ch c) \<longrightarrow>
      run_begin e c = Inl (Panic ''run already completed'')) \<and>
   (run_begin e c = Inr s \<and> exec es s = Some s' \<longrightarrow>
      run_begin e' (run_unwind s') = Inl (Panic ''run already completed''))"
proof (intro conjI impI)
  assume "run_begin e c = Inr s \<and> exec es s = Some s'"
  then have r: "run_begin e c = Inr s" and x: "exec es s = Some s'" by simp_all
  from r have "can_recv (ready c)"
    by (auto simp: run_begin_def split: if_splits)
  with run_begin_app [OF r] exec_app [OF x] have "can_recv (ready (run_unwind s'))"
    by (simp add: run_unwind_def)
  moreover have "can_recv (done_ch (run_unwind s'))"
    by (simp add: run_unwind_def close_chan_def can_recv_def)
  ultimately show "run_begin e' (run_unwind s') = Inl (Panic ''run already completed'')"
    by (simp add: run_begin_def)
qed (simp_all add: run_begin_def)

theorem run_gate_witness:
  "\<not> can_recv (ready (fresh [])) \<and>
   run_begin env0 (fresh []) = Inl (Panic ''cannot run, not yet initialized'') \<and>
   run_begin env0 app1 = Inr sys1 \<and>
   exec [Loop CaseNewLeader] sys1 =
     Some (sys1\<lparr>newLeader := Some \<lparr>ch_cap = 1, ch_buf = [], ch_closed = False\<rparr>,
                rl := tryReload (rl sys1)\<rparr>) \<and>
   run_begin env0
     (run_unwind (sys1\<lparr>newLeader := Some \<lparr>ch_cap = 1, ch_buf = [], ch_closed = False\<rparr>,
                       rl := tryReload (rl sys1)\<rparr>)) =
     Inl (Panic ''run already completed'')"
proof -
  let ?s' = "sys1\<lparr>newLeader := Some \<lparr>ch_cap = 1, ch_buf = [], ch_closed = False\<rparr>,
                  rl := tryReload (rl sys1)\<rparr>"
  have a: "\<not> can_recv (ready (fresh []))" by (rule fresh_not_ready)
  have x: "exec [Loop CaseNewLeader] sys1 = Some ?s'"
    by (simp add: sys1_def recv_def)
  have b: "run_begin env0 app1 = Inr sys1 \<and> exec [Loop CaseNewLeader] sys1 = Some ?s'"
    using run_begin_app1 x by blast
  from run_gate [where c = "fresh []" and e = env0] a
  have 1: "run_begin env0 (fresh []) = Inl (Panic ''cannot run, not yet initialized'')"
    by blast
  from run_gate [where c = app1 and e = env0 and s = sys1 and es = "[Loop CaseNewLeader]"
      and s' = ?s' and e' = env0] b
  have 2: "run_begin env0 (run_unwind ?s') = Inl (Panic ''run already completed'')"
    by blast
  from a 1 b 2 show ?thesis by blast
qed

section \<open>The leader watch without a ZK endpoint\<close>

lemma static_step:
  assumes "static_inv s" "step ev s = Some s'"
  shows "static_inv s' \<and> ev \<noteq> Loop CaseZkErr \<and>
         (if ev = Loop CaseNewLeader then 1 else 0) + leader_avail s' = leader_avail s"
proof (cases ev)
  case (Loop k)
  with assms show ?thesis
    by (cases k)
      (auto simp: static_inv_def leader_avail_def recv_def emit_def
        split: option.splits list.splits if_splits)
next
  case Worker
  with assms show ?thesis
    by (auto simp: static_inv_def leader_avail_def worker_step_def emit_def
        split: option.splits worker_pc.splits)
next
  case TimerFire
  with assms show ?thesis
    by (auto simp: static_inv_def leader_avail_def timer_fire_def split: if_splits)
next
  case (DnsSends er)
  with assms show ?thesis
    by (auto simp: static_inv_def leader_avail_def offer_def split: option.splits)
next
  case ZkLeads
  with assms show ?thesis by (simp add: static_inv_def)
next
  case (ZkSends er)
  with assms show ?thesis by (simp add: static_inv_def)
qed

lemma static_exec:
  "static_inv s \<Longrightarrow> exec es s = Some s' \<Longrightarrow>
     static_inv s' \<and> Loop CaseZkErr \<notin> set es \<and>
     count_list es (Loop CaseNewLeader) + leader_avail s' = leader_avail s"
proof (induction es arbitrary: s)
  case Nil
  then show ?case by simp
next
  case (Cons ev evs)
  then obtain s1 where 1: "step ev s = Some s1" and 2: "exec evs s1 = Some s'"
    by (auto split: option.splits)
  from static_step [OF Cons.prems(1) 1] Cons.IH [OF _ 2] show ?case
    by (auto split: if_splits)
qed

lemma beginLeaderWatch_static:
  "Zk (config c) = [] \<Longrightarrow>
     beginLeaderWatch e c = Inr ((Some \<lparr>ch_cap = 1, ch_buf = [()], ch_closed = False\<rparr>, None), c)"
  by (simp add: beginLeaderWatch_def send_def can_send_def make_chan_def)

lemma run_begin_static:
  assumes "Zk (config c) = []" "run_begin e c = Inr s"
  shows "newLeader s = Some \<lparr>ch_cap = 1, ch_buf = [()], ch_closed = False\<rparr> \<and> zkErr s = None \<and>
         rl s = launchReloader \<and> Zk (config (sapp s)) = []"
proof -
  obtain dns c1 where
    l: "launchServer (DnsOn (config c)) (\<lambda>c. (LaunchDNS e, emit ResolverLaunchDNS c)) c = (dns, c1)"
    by (cases "launchServer (DnsOn (config c)) (\<lambda>c. (LaunchDNS e, emit ResolverLaunchDNS c)) c")
  then have "config c1 = config c"
    by (auto simp: launchServer_def emit_def split: if_splits)
  with assms(1) have z: "Zk (config c1) = []" by simp
  from assms(2) l beginLeaderWatch_static [OF z, of e] show ?thesis
    using z by (auto simp: run_begin_def split: if_splits)
qed

text \<open>
  C5. With no ZK endpoint configured, \<^verbatim>\<open>beginLeaderWatch\<close> returns at once, calls no
  collaborator, and returns a leader channel of capacity 1 that holds one event and a
  \<^verbatim>\<open>nil\<close> error channel. So when \<^verbatim>\<open>run\<close> reaches its loop one leadership event is there
  to take and no reload request is pending; taking it leaves one request pending; and in
  every run of the system from there, the leadership events taken so far and the one
  still to take are one in all, the loop never takes the case of the watcher's errors,
  and the error channel stays \<^verbatim>\<open>nil\<close>.
\<close>

theorem static_leader_once:
  assumes "Zk (config c) = []"
  shows "beginLeaderWatch e c =
           Inr ((Some \<lparr>ch_cap = 1, ch_buf = [()], ch_closed = False\<rparr>, None), c) \<and>
         (run_begin e c = Inr s \<longrightarrow>
            leader_avail s = 1 \<and> zkErr s = None \<and> pending s = 0 \<and>
            (\<exists>s1. loop_iter CaseNewLeader s = Some s1 \<and> leader_avail s1 = 0 \<and> pending s1 = 1) \<and>
            (exec es s = Some s' \<longrightarrow>
               count_list es (Loop CaseNewLeader) + leader_avail s' = 1 \<and>
               Loop CaseZkErr \<notin> set es \<and> zkErr s' = None))"
proof (intro conjI impI)
  show "beginLeaderWatch e c =
           Inr ((Some \<lparr>ch_cap = 1, ch_buf = [()], ch_closed = False\<rparr>, None), c)"
    using assms by (rule beginLeaderWatch_static)
next
  assume r: "run_begin e c = Inr s"
  note f = run_begin_static [OF assms r]
  from f show a: "leader_avail s = 1" by (simp add: leader_avail_def)
  from f show "zkErr s = None" by simp
  from f show "pending s = 0" by (simp add: pending_def launchReloader_def make_chan_def)
  from f show "\<exists>s1. loop_iter CaseNewLeader s = Some s1 \<and> leader_avail s1 = 0 \<and> pending s1 = 1"
    by (simp add: recv_def leader_avail_def pending_def tryReload_def send_def can_send_def
        launchReloader_def make_chan_def)
  have i: "static_inv s" using f by (simp add: static_inv_def)
  assume x: "exec es s = Some s'"
  from static_exec [OF i x] a
  show "count_list es (Loop CaseNewLeader) + leader_avail s' = 1"
    and "Loop CaseZkErr \<notin> set es" and "zkErr s' = None"
    by (simp_all add: static_inv_def)
qed

lemma exec_sys1:
  "exec [Worker, TimerFire, Loop CaseNewLeader, Worker, Worker] sys1 =
     Some (sys1\<lparr>sapp :=
                  app1\<lparr>calls :=
                         [ResolverNew, TimerAfterFunc 0, ResolverReloadBegin, ResolverReloadEnd,
                          PrintCurLog, TimerReset 0]\<rparr>,
                newLeader := Some \<lparr>ch_cap = 1, ch_buf = [], ch_closed = False\<rparr>,
                rl := \<lparr>reloadSignal = make_chan 1, worker = W_Await, timer_armed = True\<rparr>\<rparr>)"
  by (simp add: sys1_def app1_def worker_step_def timer_fire_def launchReloader_def
      tryReload_def send_def can_send_def make_chan_def recv_def emit_def fresh_def
      zero_config_def reloadTimeout_def)

theorem static_leader_once_witness:
  "Zk (config app1) = [] \<and> run_begin env0 app1 = Inr sys1 \<and> leader_avail sys1 = 1 \<and>
   map_option leader_avail (exec [Worker, TimerFire, Loop CaseNewLeader, Worker, Worker] sys1) =
     Some 0 \<and>
   map_option reloads (exec [Worker, TimerFire, Loop CaseNewLeader, Worker, Worker] sys1) =
     Some 1"
proof -
  have z: "Zk (config app1) = []" by (rule app1_facts)
  have r: "map_option reloads (exec [Worker, TimerFire, Loop CaseNewLeader, Worker, Worker] sys1) =
     Some 1"
    unfolding exec_sys1 by (simp add: reloads_def)
  from z r run_begin_app1
    static_leader_once [OF z, where e = env0 and s = sys1
      and es = "[Worker, TimerFire, Loop CaseNewLeader, Worker, Worker]"]
  show ?thesis unfolding exec_sys1 by simp
qed

section \<open>The loop of run\<close>

lemma tryReload_ok:
  "reloader_ok r \<Longrightarrow>
     tryReload r = r\<lparr>reloadSignal := (reloadSignal r)\<lparr>ch_buf := [()]\<rparr>\<rparr>"
proof -
  assume ok: "reloader_ok r"
  show ?thesis
  proof (cases "ch_buf (reloadSignal r)")
    case Nil
    with ok show ?thesis by (simp add: tryReload_def send_def can_send_def reloader_ok_def)
  next
    case (Cons v vs)
    with ok have "vs = []" by (simp add: reloader_ok_def)
    with Cons have "ch_buf (reloadSignal r) = [()]" by simp
    with ok show ?thesis by (simp add: tryReload_def send_def can_send_def reloader_ok_def)
  qed
qed

lemma launchReloader_ok: "reloader_ok launchReloader"
  by (simp add: reloader_ok_def launchReloader_def make_chan_def)



lemma newApp_envZ: "newApp envZ [] = Inr appZ"
  by (simp add: newApp_def initialize_def envZ_def env0_def fresh_def appZ_def zero_config_def
      can_recv_def make_chan_def emit_def close_chan_def)

lemma run_begin_appZ: "run_begin envZ appZ = Inr sysZ"
  by (simp add: run_begin_def launchServer_def beginLeaderWatch_def sysZ_def appZ_def envZ_def
      env0_def fresh_def zero_config_def can_recv_def make_chan_def close_chan_def)

lemma step_no_LaunchZK:
  "step ev s = Some s' \<Longrightarrow>
     count_list (calls (sapp s')) (ResolverLaunchZK t) =
     count_list (calls (sapp s)) (ResolverLaunchZK t)"
  apply (cases ev)
  subgoal for k by (cases k) (auto simp: emit_def split: option.splits)
  by (auto simp: worker_step_def timer_fire_def emit_def
      split: option.splits worker_pc.splits if_splits)

lemma exec_no_LaunchZK:
  "exec es s = Some s' \<Longrightarrow>
     count_list (calls (sapp s')) (ResolverLaunchZK t) =
     count_list (calls (sapp s)) (ResolverLaunchZK t)"
proof (induction es arbitrary: s)
  case Nil
  then show ?case by simp
next
  case (Cons ev evs)
  then obtain s1 where 1: "step ev s = Some s1" and 2: "exec evs s1 = Some s'"
    by (auto split: option.splits)
  from Cons.IH [OF 2] step_no_LaunchZK [OF 1] show ?case by simp
qed

text \<open>
  C7, as the claim states it, fails on the tag. With a ZK endpoint configured, the watcher
  offers the error \<open>Err ''lost''\<close> and the loop takes it: the error handler is called with
  the tag \<^verbatim>\<open>ZK watcher\<close>, and no call carries the tag \<^verbatim>\<open>leader watcher\<close>.
\<close>

theorem zk_error_tag_is_ZK_watcher:
  "newApp envZ [] = Inr appZ \<and> run_begin envZ appZ = Inr sysZ \<and>
   map_option (calls \<circ> sapp) (exec [ZkSends (Err ''lost''), Loop CaseZkErr] sysZ) =
     Some [ResolverNew, ResolverLaunchZK 30000000000,
           ErrHandler ''ZK watcher'' (Some (Err ''lost''))] \<and>
   ErrHandler ''leader watcher'' (Some (Err ''lost'')) \<notin>
     set [ResolverNew, ResolverLaunchZK 30000000000,
          ErrHandler ''ZK watcher'' (Some (Err ''lost''))]"
  by (simp add: newApp_envZ run_begin_appZ)
    (simp add: sysZ_def appZ_def offer_def make_chan_def recv_def emit_def fresh_def
      zero_config_def zkInitialDetectionTimeout_def)

text \<open>
  C7, amended. An iteration of the loop that takes an error from the watcher's error
  channel calls the error handler once, with the tag \<^verbatim>\<open>ZK watcher\<close> and that error, and
  does nothing else. The supervisor does not retry: no step of the system calls
  \<^verbatim>\<open>LaunchZK\<close> again.
\<close>

theorem zk_error_forwarded:
  "zkErr s = Some ch \<and> ch_buf ch = er # rest \<Longrightarrow>
     loop_iter CaseZkErr s =
       Some (s\<lparr>zkErr := Some (ch\<lparr>ch_buf := rest\<rparr>),
               sapp := emit (ErrHandler ''ZK watcher'' (Some er)) (sapp s)\<rparr>) \<and>
     (exec es s = Some s' \<longrightarrow>
        count_list (calls (sapp s')) (ResolverLaunchZK t) =
        count_list (calls (sapp s)) (ResolverLaunchZK t))"
  by (auto simp: recv_def exec_no_LaunchZK)

theorem zk_error_forwarded_witness:
  "zkErr (sysZ\<lparr>zkErr := Some \<lparr>ch_cap = 0, ch_buf = [Err ''lost''], ch_closed = False\<rparr>\<rparr>) =
     Some \<lparr>ch_cap = 0, ch_buf = [Err ''lost''], ch_closed = False\<rparr> \<and>
   exec [Loop CaseZkErr]
     (sysZ\<lparr>zkErr := Some \<lparr>ch_cap = 0, ch_buf = [Err ''lost''], ch_closed = False\<rparr>\<rparr>) =
     Some (sysZ\<lparr>zkErr := Some \<lparr>ch_cap = 0, ch_buf = [], ch_closed = False\<rparr>,
                sapp := emit (ErrHandler ''ZK watcher'' (Some (Err ''lost''))) (sapp sysZ)\<rparr>) \<and>
   count_list
     (calls (emit (ErrHandler ''ZK watcher'' (Some (Err ''lost''))) (sapp sysZ)))
     (ResolverLaunchZK zkInitialDetectionTimeout) = 1"
proof -
  let ?s = "sysZ\<lparr>zkErr := Some \<lparr>ch_cap = 0, ch_buf = [Err ''lost''], ch_closed = False\<rparr>\<rparr>"
  let ?s' = "sysZ\<lparr>zkErr := Some \<lparr>ch_cap = 0, ch_buf = [], ch_closed = False\<rparr>,
                sapp := emit (ErrHandler ''ZK watcher'' (Some (Err ''lost''))) (sapp sysZ)\<rparr>"
  have a: "zkErr ?s = Some \<lparr>ch_cap = 0, ch_buf = [Err ''lost''], ch_closed = False\<rparr> \<and>
           ch_buf \<lparr>ch_cap = 0, ch_buf = [Err ''lost''], ch_closed = False\<rparr> = [Err ''lost'']"
    by simp
  have x: "exec [Loop CaseZkErr] ?s = Some ?s'"
    by (simp add: recv_def)
  have n: "count_list (calls (sapp ?s)) (ResolverLaunchZK zkInitialDetectionTimeout) = 1"
    by (simp add: sysZ_def appZ_def emit_def fresh_def)
  from zk_error_forwarded [OF a, where es = "[Loop CaseZkErr]" and s' = ?s'
      and t = zkInitialDetectionTimeout] x n
  show ?thesis by simp
qed

section \<open>Initialization and the plugin settings\<close>

lemma started_append: "started (xs @ ys) = started xs @ started ys"
  by (induction xs rule: started.induct) simp_all

lemma logged_append: "logged (xs @ ys) = logged xs @ logged ys"
  by (induction xs rule: logged.induct) simp_all

lemma register_open:
  assumes "\<not> can_recv (ready c)"
  shows "\<exists>c'. register x c = Inr c' \<and> ready c' = ready c \<and> config c' = config c \<and>
           started (calls c') = started (calls c) \<and> logged (calls c') = logged (calls c)"
  using assms
  by (cases x)
    (auto simp: app_OnPreload_def app_OnPostload_def app_AddFilter_def app_RegisterWS_def
      emit_def started_append logged_append split: option.splits)

lemma register_all_open:
  "\<not> can_recv (ready c) \<Longrightarrow>
     \<exists>c'. register_all xs c = Inr c' \<and> ready c' = ready c \<and> config c' = config c \<and>
          started (calls c') = started (calls c) \<and> logged (calls c') = logged (calls c)"
proof (induction xs arbitrary: c)
  case Nil
  then show ?case by simp
next
  case (Cons x xs)
  from register_open [OF Cons.prems, of x] obtain c1 where
    1: "register x c = Inr c1" "ready c1 = ready c" "config c1 = config c"
       "started (calls c1) = started (calls c)" "logged (calls c1) = logged (calls c)"
    by blast
  from Cons.prems 1 have "\<not> can_recv (ready c1)" by simp
  from Cons.IH [OF this] 1 show ?case by simp
qed

lemma launchPlugin_open:
  assumes "\<not> can_recv (ready c)"
  shows "\<exists>c'. launchPlugin n p c = Inr c' \<and> ready c' = ready c \<and> config c' = config c \<and>
           started (calls c') = started (calls c) @ [(n, p_id p)] \<and>
           logged (calls c') = logged (calls c)"
proof -
  let ?c2 = "emit (PluginStart n (p_id p)) (emit (LogVerbose ''starting plugin %q'' [n]) c)"
  have o: "\<not> can_recv (ready ?c2)" using assms by (simp add: emit_def)
  from register_all_open [OF o, of "p_start p"] obtain c3 where
    3: "register_all (p_start p) ?c2 = Inr c3" "ready c3 = ready ?c2" "config c3 = config ?c2"
       "started (calls c3) = started (calls ?c2)" "logged (calls c3) = logged (calls ?c2)"
    by blast
  then show ?thesis
    by (simp add: launchPlugin_def emit_def started_append logged_append)
qed

lemma launch_third_party_open:
  "\<not> can_recv (ready c) \<Longrightarrow>
     \<exists>c'. launch_third_party e ps c = Inr c' \<and> ready c' = ready c \<and> config c' = config c \<and>
          started (calls c') = started (calls c) @ launchable e ps \<and>
          logged (calls c') = logged (calls c) @ rejected e ps"
proof (induction ps arbitrary: c)
  case Nil
  then show ?case by simp
next
  case (Cons pc pcs)
  show ?case
  proof (cases "pc_Name pc = []")
    case True
    let ?c1 = "emit (LogError ''failed to register plugin with empty name'' []) c"
    have "\<not> can_recv (ready ?c1)" using Cons.prems by (simp add: emit_def)
    from Cons.IH [OF this] True show ?thesis
      by (auto simp: emit_def started_append logged_append)
  next
    case False
    show ?thesis
    proof (cases "plugins_New e (pc_Name pc) (pc_Settings pc)")
      case (Inl er)
      let ?c1 = "emit (LogError ''failed to create plugin: %v'' [err_string er]) c"
      have "\<not> can_recv (ready ?c1)" using Cons.prems by (simp add: emit_def)
      from Cons.IH [OF this] False Inl show ?thesis
        by (auto simp: emit_def started_append logged_append)
    next
      case (Inr p)
      from launchPlugin_open [OF Cons.prems, of "pc_Name pc" p] obtain c1 where
        1: "launchPlugin (pc_Name pc) p c = Inr c1" "ready c1 = ready c" "config c1 = config c"
           "started (calls c1) = started (calls c) @ [(pc_Name pc, p_id p)]"
           "logged (calls c1) = logged (calls c)"
        by blast
      from Cons.prems 1 have "\<not> can_recv (ready c1)" by simp
      from Cons.IH [OF this] False Inr 1 show ?thesis by auto
    qed
  qed
qed

lemma launchable_append: "launchable e (ps @ qs) = launchable e ps @ launchable e qs"
  by (induction ps) (auto split: sum.splits)

text \<open>
  C8. Called with the ready signal open, as \<^verbatim>\<open>newApp\<close> does, \<^verbatim>\<open>initialize\<close> does not
  abort: it returns, with the ready signal closed. The plugins it has started are the
  HTTP server when that is enabled, then the valid entries of the plugin settings, in the
  order of the list. An entry with an empty name or that \<^verbatim>\<open>plugins.New\<close> rejects adds
  its message to the error log and nothing to the plugins started, whatever precedes and
  follows it in the list; a valid entry is started between the valid entries before it
  and those after it.
\<close>

theorem invalid_plugins_skipped:
  assumes "\<not> can_recv (ready c)" and "SetConfig e (heap c) = (cfg, h)"
    and "ps = (case Plugins cfg of None \<Rightarrow> [] | Some l \<Rightarrow> l)"
  shows "(\<exists>c'. initialize e c = Inr c' \<and> ch_closed (ready c') \<and>
           started (calls c') =
             started (calls c) @
             (if HttpOn cfg then [(''HTTP server'', p_id (NewAPIPlugin e))] else []) @
             launchable e ps \<and>
           logged (calls c') = logged (calls c) @ rejected e ps) \<and>
         (pc_Name pc = [] \<or> isl (plugins_New e (pc_Name pc) (pc_Settings pc)) \<longrightarrow>
           launchable e (before @ pc # after) = launchable e before @ launchable e after) \<and>
         (pc_Name pc \<noteq> [] \<and> plugins_New e (pc_Name pc) (pc_Settings pc) = Inr p \<longrightarrow>
           launchable e (before @ pc # after) =
             launchable e before @ (pc_Name pc, p_id p) # launchable e after)"
proof (intro conjI impI)
  let ?c1 = "emit ResolverNew (c\<lparr>config := cfg, heap := h\<rparr>)"
  have o1: "\<not> can_recv (ready ?c1)" using assms(1) by (simp add: emit_def)
  have s1: "started (calls ?c1) = started (calls c)" "logged (calls ?c1) = logged (calls c)"
    "config ?c1 = cfg"
    by (simp_all add: emit_def started_append logged_append)
  obtain c2 where
    2: "(if HttpOn cfg then launchPlugin ''HTTP server'' (NewAPIPlugin e) ?c1 else Inr ?c1) = Inr c2"
       "ready c2 = ready ?c1" "config c2 = cfg"
       "started (calls c2) =
          started (calls c) @ (if HttpOn cfg then [(''HTTP server'', p_id (NewAPIPlugin e))] else [])"
       "logged (calls c2) = logged (calls c)"
  proof (cases "HttpOn cfg")
    case True
    from launchPlugin_open [OF o1, of "''HTTP server''" "NewAPIPlugin e"] True s1 that
    show ?thesis by auto
  next
    case False
    with s1 that [of ?c1] show ?thesis by simp
  qed
  from o1 2 have o2: "\<not> can_recv (ready c2)" by simp
  from launch_third_party_open [OF o2, of e ps] obtain c3 where
    3: "launch_third_party e ps c2 = Inr c3" "ready c3 = ready c2"
       "started (calls c3) = started (calls c2) @ launchable e ps"
       "logged (calls c3) = logged (calls c2) @ rejected e ps"
    by blast
  have "initialize e c = Inr (c3\<lparr>ready := close_chan (ready c3)\<rparr>)"
    using assms 2 3 s1 by (simp add: initialize_def)
  with 2 3 show "\<exists>c'. initialize e c = Inr c' \<and> ch_closed (ready c') \<and>
           started (calls c') =
             started (calls c) @
             (if HttpOn cfg then [(''HTTP server'', p_id (NewAPIPlugin e))] else []) @
             launchable e ps \<and>
           logged (calls c') = logged (calls c) @ rejected e ps"
    by (simp add: close_chan_def)
next
  assume "pc_Name pc = [] \<or> isl (plugins_New e (pc_Name pc) (pc_Settings pc))"
  then show "launchable e (before @ pc # after) = launchable e before @ launchable e after"
    by (auto simp: launchable_append isl_def)
next
  assume "pc_Name pc \<noteq> [] \<and> plugins_New e (pc_Name pc) (pc_Settings pc) = Inr p"
  then show "launchable e (before @ pc # after) =
             launchable e before @ (pc_Name pc, p_id p) # launchable e after"
    by (simp add: launchable_append)
qed

theorem invalid_plugins_skipped_witness:
  "\<not> can_recv (ready (fresh [])) \<and> SetConfig envP (heap (fresh [])) = (cfgP, []) \<and>
   (\<exists>c'. newApp envP [] = Inr c' \<and> ch_closed (ready c') \<and>
      started (calls c') = [(''HTTP server'', 0), (''one'', 1), (''two'', 2)] \<and>
      logged (calls c') =
        [(''failed to register plugin with empty name'', []),
         (''failed to create plugin: %v'', [''unknown plugin''])])"
proof -
  have a: "\<not> can_recv (ready (fresh []))" by (rule fresh_not_ready)
  have b: "SetConfig envP (heap (fresh [])) = (cfgP, [])"
    by (simp add: envP_def env0_def fresh_def)
  have c: "[\<lparr>pc_Name = [], pc_Settings = ''{}''\<rparr>,
            \<lparr>pc_Name = ''bad'', pc_Settings = ''{}''\<rparr>,
            \<lparr>pc_Name = ''one'', pc_Settings = ''{}''\<rparr>,
            \<lparr>pc_Name = ''two'', pc_Settings = ''{}''\<rparr>] =
           (case Plugins cfgP of None \<Rightarrow> [] | Some l \<Rightarrow> l)"
    by (simp add: cfgP_def)
  have d: "started (calls (fresh [])) = []" "logged (calls (fresh [])) = []"
    "HttpOn cfgP" "p_id (NewAPIPlugin envP) = 0"
    by (simp_all add: fresh_def cfgP_def envP_def env0_def)
  have e: "launchable envP
             [\<lparr>pc_Name = [], pc_Settings = ''{}''\<rparr>,
              \<lparr>pc_Name = ''bad'', pc_Settings = ''{}''\<rparr>,
              \<lparr>pc_Name = ''one'', pc_Settings = ''{}''\<rparr>,
              \<lparr>pc_Name = ''two'', pc_Settings = ''{}''\<rparr>] = [(''one'', 1), (''two'', 2)]"
    by (simp add: envP_def env0_def)
  have f: "rejected envP
             [\<lparr>pc_Name = [], pc_Settings = ''{}''\<rparr>,
              \<lparr>pc_Name = ''bad'', pc_Settings = ''{}''\<rparr>,
              \<lparr>pc_Name = ''one'', pc_Settings = ''{}''\<rparr>,
              \<lparr>pc_Name = ''two'', pc_Settings = ''{}''\<rparr>] =
           [(''failed to register plugin with empty name'', []),
            (''failed to create plugin: %v'', [''unknown plugin''])]"
    by (simp add: envP_def env0_def)
  from invalid_plugins_skipped [OF a b c, THEN conjunct1] a b
  show ?thesis unfolding newApp_def d e f by (simp add: d)
qed

section \<open>The Config accessor returns a copy\<close>

lemma elems_length: "slice_ok h s \<Longrightarrow> length (elems h s) = len s"
  by (cases s) auto

lemma elems_extend:
  assumes "slice_ok h s" "take (length h) h' = h"
  shows "elems h' s = elems h s \<and> slice_ok h' s"
proof (cases s)
  case NilSlice
  then show ?thesis by simp
next
  case (Slice a off n)
  with assms(1) have a: "a < length h" by simp
  have "length (take (length h) h') = length h" using assms(2) by simp
  then have l: "length h \<le> length h'" by simp
  have "take (length h) h' ! a = h' ! a" using a by simp
  with assms(2) have "h' ! a = h ! a" by simp
  with Slice assms(1) a l show ?thesis by simp
qed

lemma copy_fresh:
  assumes "slice_ok h s"
  shows "copy_slice (Slice (length h) 0 (len s)) s (h @ [replicate (len s) []]) = h @ [elems h s]"
proof -
  have t: "take (length h) (h @ [replicate (len s) []]) = h" by simp
  from elems_extend [OF assms t] have e: "elems (h @ [replicate (len s) []]) s = elems h s"
    by simp
  show ?thesis
    by (simp add: e Let_def elems_length [OF assms])
qed

lemma app_Config_eq:
  assumes "slice_ok (heap c) (Masters (config c))" "slice_ok (heap c) (Resolvers (config c))"
  shows "app_Config c =
           ((config c)\<lparr>Plugins := None,
                       Masters := Slice (length (heap c)) 0 (len (Masters (config c))),
                       Resolvers := Slice (Suc (length (heap c))) 0 (len (Resolvers (config c)))\<rparr>,
            c\<lparr>heap := heap c @ [elems (heap c) (Masters (config c)),
                                  elems (heap c) (Resolvers (config c))]\<rparr>)"
proof -
  let ?M = "Masters (config c)" and ?R = "Resolvers (config c)"
  let ?h2 = "heap c @ [elems (heap c) ?M]"
  have t: "take (length (heap c)) ?h2 = heap c" by simp
  from elems_extend [OF assms(2) t]
  have r: "elems ?h2 ?R = elems (heap c) ?R" and ok: "slice_ok ?h2 ?R" by simp_all
  have c1: "copy_slice (Slice (length (heap c)) 0 (len ?M)) ?M (heap c @ [replicate (len ?M) []]) = ?h2"
    by (rule copy_fresh [OF assms(1)])
  have c2: "copy_slice (Slice (Suc (length (heap c))) 0 (len ?R)) ?R
              (heap c @ [elems (heap c) ?M, replicate (len ?R) []]) =
            heap c @ [elems (heap c) ?M, elems (heap c) ?R]"
    using copy_fresh [OF ok] r by (simp del: copy_slice.simps)
  show ?thesis
    by (simp add: app_Config_def make_slice_def c1 c2 del: copy_slice.simps)
qed

lemma Config_value_eq:
  assumes "slice_ok (heap c) (Masters (config c))" "slice_ok (heap c) (Resolvers (config c))"
  shows "Config_value c = cfg_value (heap c) ((config c)\<lparr>Plugins := None\<rparr>)"
  by (simp add: Config_value_def app_Config_eq [OF assms] cfg_value_def nth_append
      elems_length [OF assms(1)] elems_length [OF assms(2)])

lemma set_elem_frame:
  assumes "set_elem s i v h = Inr h'" "backing s = Some a" "n \<le> a"
  shows "length h' = length h \<and> take n h' = take n h"
  using assms by (cases s) (auto split: if_splits)

lemma mutate_frame:
  assumes "owned n snap" "mutate mu (snap, h) = Inr (snap', h')"
  shows "owned n snap' \<and> length h' = length h \<and> take n h' = take n h"
proof (cases mu)
  case (StoreMaster i v)
  with assms(2) have s: "set_elem (Masters snap) i v h = Inr h'" and e: "snap' = snap"
    by (auto split: sum.splits)
  then obtain a where a: "backing (Masters snap) = Some a"
    by (cases "Masters snap") auto
  with assms(1) have "n \<le> a" by (simp add: owned_def)
  from set_elem_frame [OF s a this] assms(1) e show ?thesis by simp
next
  case (StoreResolver i v)
  with assms(2) have s: "set_elem (Resolvers snap) i v h = Inr h'" and e: "snap' = snap"
    by (auto split: sum.splits)
  then obtain a where a: "backing (Resolvers snap) = Some a"
    by (cases "Resolvers snap") auto
  with assms(1) have "n \<le> a" by (simp add: owned_def)
  from set_elem_frame [OF s a this] assms(1) e show ?thesis by simp
qed (use assms in \<open>auto simp: owned_def\<close>)

lemma mutate_all_frame:
  "owned n snap \<Longrightarrow> mutate_all mus (snap, h) = Inr (snap', h') \<Longrightarrow>
     owned n snap' \<and> length h' = length h \<and> take n h' = take n h"
proof (induction mus arbitrary: snap h)
  case Nil
  then show ?case by simp
next
  case (Cons mu mus)
  from Cons.prems(2) obtain snap1 h1 where
    1: "mutate mu (snap, h) = Inr (snap1, h1)" and 2: "mutate_all mus (snap1, h1) = Inr (snap', h')"
    by (auto split: sum.splits)
  from mutate_frame [OF Cons.prems(1) 1] Cons.IH [OF _ 2] show ?case by simp
qed

text \<open>
  C4. In every state of the supervisor whose two address slices lie within the heap, the
  snapshot that \<^verbatim>\<open>Config\<close> returns has \<^verbatim>\<open>Plugins\<close> \<^verbatim>\<open>nil\<close>; its \<^verbatim>\<open>Masters\<close> and
  \<^verbatim>\<open>Resolvers\<close> have the elements of the supervisor's, in arrays allocated by the call,
  which are not the arrays of the supervisor's slices. The call changes only the heap,
  and there only by allocating: the supervisor's configuration and its value are as
  before. Whatever stores and assignments a caller then makes through the snapshot, the
  next call of \<^verbatim>\<open>Config\<close> returns the value that this one returned, and the value of the
  supervisor's configuration is unchanged.
\<close>

theorem Config_snapshot_isolated:
  assumes "slice_ok (heap c) (Masters (config c))" and "slice_ok (heap c) (Resolvers (config c))"
    and "app_Config c = (snap, c1)"
  shows "Plugins snap = None \<and>
         elems (heap c1) (Masters snap) = elems (heap c) (Masters (config c)) \<and>
         elems (heap c1) (Resolvers snap) = elems (heap c) (Resolvers (config c)) \<and>
         backing (Masters snap) = Some (length (heap c)) \<and>
         backing (Resolvers snap) = Some (Suc (length (heap c))) \<and>
         backing (Masters snap) \<noteq> backing (Masters (config c)) \<and>
         backing (Masters snap) \<noteq> backing (Resolvers (config c)) \<and>
         backing (Resolvers snap) \<noteq> backing (Masters (config c)) \<and>
         backing (Resolvers snap) \<noteq> backing (Resolvers (config c)) \<and>
         c1 = c\<lparr>heap := heap c1\<rparr> \<and>
         take (length (heap c)) (heap c1) = heap c \<and>
         cfg_value (heap c1) (config c1) = cfg_value (heap c) (config c) \<and>
         (mutate_all mus (snap, heap c1) = Inr (snap', h') \<longrightarrow>
            Config_value (c1\<lparr>heap := h'\<rparr>) = Config_value c \<and>
            cfg_value h' (config c1) = cfg_value (heap c) (config c))"
proof -
  let ?M = "Masters (config c)" and ?R = "Resolvers (config c)"
  let ?n = "length (heap c)"
  note eq = app_Config_eq [OF assms(1,2)]
  from eq assms(3) have
    snap: "snap = (config c)\<lparr>Plugins := None, Masters := Slice ?n 0 (len ?M),
                              Resolvers := Slice (Suc ?n) 0 (len ?R)\<rparr>"
    and c1: "c1 = c\<lparr>heap := heap c @ [elems (heap c) ?M, elems (heap c) ?R]\<rparr>"
    by simp_all
  have bM: "backing ?M \<noteq> Some ?n \<and> backing ?M \<noteq> Some (Suc ?n)"
    using assms(1) by (cases ?M) auto
  have bR: "backing ?R \<noteq> Some ?n \<and> backing ?R \<noteq> Some (Suc ?n)"
    using assms(2) by (cases ?R) auto
  have t: "take ?n (heap c1) = heap c" by (simp add: c1)
  have ext: "elems h ?M = elems (heap c) ?M \<and> slice_ok h ?M \<and>
             elems h ?R = elems (heap c) ?R \<and> slice_ok h ?R"
    if "take ?n h = heap c" for h
    using elems_extend [OF assms(1) that] elems_extend [OF assms(2) that] by simp
  have p1: "Plugins snap = None" by (simp add: snap)
  have p2: "elems (heap c1) (Masters snap) = elems (heap c) ?M"
    by (simp add: snap c1 nth_append elems_length [OF assms(1)])
  have p3: "elems (heap c1) (Resolvers snap) = elems (heap c) ?R"
    by (simp add: snap c1 nth_append elems_length [OF assms(2)])
  have p4: "backing (Masters snap) = Some ?n" "backing (Resolvers snap) = Some (Suc ?n)"
    by (simp_all add: snap)
  have p5: "c1 = c\<lparr>heap := heap c1\<rparr>" by (simp add: c1)
  have p6: "cfg_value (heap c1) (config c1) = cfg_value (heap c) (config c)"
    using ext [OF t] by (simp add: cfg_value_def c1)
  have p7: "Config_value (c1\<lparr>heap := h'\<rparr>) = Config_value c \<and>
            cfg_value h' (config c1) = cfg_value (heap c) (config c)"
    if m: "mutate_all mus (snap, heap c1) = Inr (snap', h')"
  proof -
    have "owned ?n snap" by (simp add: owned_def snap)
    from mutate_all_frame [OF this m] t have t': "take ?n h' = heap c" by simp
    from ext [OF t'] have
      "Config_value (c1\<lparr>heap := h'\<rparr>) = cfg_value h' ((config c)\<lparr>Plugins := None\<rparr>)"
      by (intro Config_value_eq [THEN trans]) (simp_all add: c1)
    also have "\<dots> = cfg_value (heap c) ((config c)\<lparr>Plugins := None\<rparr>)"
      using ext [OF t'] by (simp add: cfg_value_def)
    also have "\<dots> = Config_value c"
      by (rule Config_value_eq [OF assms(1,2), symmetric])
    finally have "Config_value (c1\<lparr>heap := h'\<rparr>) = Config_value c" .
    moreover have "cfg_value h' (config c1) = cfg_value (heap c) (config c)"
      using ext [OF t'] by (simp add: cfg_value_def c1)
    ultimately show ?thesis by simp
  qed
  from p1 p2 p3 p4 bM bR p5 t p6 p7 show ?thesis by (simp add: p4) metis
qed

theorem Config_snapshot_isolated_witness:
  "slice_ok (heap appM) (Masters (config appM)) \<and>
   slice_ok (heap appM) (Resolvers (config appM)) \<and>
   app_Config appM =
     ((config appM)\<lparr>Masters := Slice 1 0 2, Resolvers := Slice 2 0 1\<rparr>,
      appM\<lparr>heap := [[''10.0.0.1'', ''10.0.0.2'', ''8.8.8.8''],
                     [''10.0.0.1'', ''10.0.0.2''], [''8.8.8.8'']]\<rparr>) \<and>
   mutate_all [StoreMaster 0 ''evil'', StoreResolver 0 ''x'', ClearMasters]
     ((config appM)\<lparr>Masters := Slice 1 0 2, Resolvers := Slice 2 0 1\<rparr>,
      [[''10.0.0.1'', ''10.0.0.2'', ''8.8.8.8''], [''10.0.0.1'', ''10.0.0.2''], [''8.8.8.8'']]) =
     Inr ((config appM)\<lparr>Masters := NilSlice, Resolvers := Slice 2 0 1\<rparr>,
          [[''10.0.0.1'', ''10.0.0.2'', ''8.8.8.8''], [''evil'', ''10.0.0.2''], [''x'']]) \<and>
   Config_value appM = ([''10.0.0.1'', ''10.0.0.2''], [''8.8.8.8''], None, [], 0, False, False) \<and>
   Config_value
     (appM\<lparr>heap := [[''10.0.0.1'', ''10.0.0.2'', ''8.8.8.8''], [''evil'', ''10.0.0.2''], [''x'']]\<rparr>) =
     Config_value appM"
proof -
  let ?h1 = "[[''10.0.0.1'', ''10.0.0.2'', ''8.8.8.8''], [''10.0.0.1'', ''10.0.0.2''], [''8.8.8.8'']]"
  let ?h' = "[[''10.0.0.1'', ''10.0.0.2'', ''8.8.8.8''], [''evil'', ''10.0.0.2''], [''x'']]"
  let ?snap = "(config appM)\<lparr>Masters := Slice 1 0 2, Resolvers := Slice 2 0 1\<rparr>"
  let ?snap' = "(config appM)\<lparr>Masters := NilSlice, Resolvers := Slice 2 0 1\<rparr>"
  have a: "slice_ok (heap appM) (Masters (config appM))"
    and b: "slice_ok (heap appM) (Resolvers (config appM))"
    by (simp_all add: appM_def fresh_def)
  have c: "app_Config appM = (?snap, appM\<lparr>heap := ?h1\<rparr>)"
    by (simp add: app_Config_eq [OF a b]) (simp add: appM_def fresh_def zero_config_def)
  have d: "mutate_all [StoreMaster 0 ''evil'', StoreResolver 0 ''x'', ClearMasters] (?snap, ?h1) =
             Inr (?snap', ?h')"
    by simp
  have e: "Config_value appM =
             ([''10.0.0.1'', ''10.0.0.2''], [''8.8.8.8''], None, [], 0, False, False)"
    by (simp add: Config_value_eq [OF a b])
      (simp add: cfg_value_def appM_def fresh_def zero_config_def)
  have f: "mutate_all [StoreMaster 0 ''evil'', StoreResolver 0 ''x'', ClearMasters]
             (?snap, heap (appM\<lparr>heap := ?h1\<rparr>)) = Inr (?snap', ?h')"
    using d by simp
  from Config_snapshot_isolated [OF a b c, where snap' = ?snap' and h' = ?h'
      and mus = "[StoreMaster 0 ''evil'', StoreResolver 0 ''x'', ClearMasters]"]
  have "mutate_all [StoreMaster 0 ''evil'', StoreResolver 0 ''x'', ClearMasters]
             (?snap, heap (appM\<lparr>heap := ?h1\<rparr>)) = Inr (?snap', ?h') \<longrightarrow>
        Config_value ((appM\<lparr>heap := ?h1\<rparr>)\<lparr>heap := ?h'\<rparr>) = Config_value appM"
    by blast
  with f have "Config_value ((appM\<lparr>heap := ?h1\<rparr>)\<lparr>heap := ?h'\<rparr>) = Config_value appM"
    by blast
  then have "Config_value (appM\<lparr>heap := ?h'\<rparr>) = Config_value appM"
    by simp
  with a b c d e show ?thesis by blast
qed

section \<open>The reloader\<close>

lemma run_begin_rl: "run_begin e c = Inr s \<Longrightarrow> rl s = launchReloader"
  by (auto simp: run_begin_def split: if_splits prod.splits sum.splits)

lemma tryReload_worker: "worker (tryReload r) = worker r"
  by (simp add: tryReload_def split: option.splits)

lemma tryReload_keeps_ok: "reloader_ok r \<Longrightarrow> reloader_ok (tryReload r)"
  by (simp add: tryReload_ok) (simp add: reloader_ok_def)

lemma worker_step_ok:
  assumes "reloader_ok (rl s)" "worker_step s = Some s'"
  shows "reloader_ok (rl s')"
  using assms
  by (auto simp: worker_step_def reloader_ok_def recv_def
      split: worker_pc.splits list.splits if_splits)

lemma count_emit:
  "count_list (calls (emit x c)) y = count_list (calls c) y + (if x = y then 1 else 0)"
  by (simp add: emit_def)

lemma burst_inv:
  "reloader_ok (rl s) \<Longrightarrow> burst bs s = Some s' \<Longrightarrow>
     reloader_ok (rl s') \<and> potential s' = potential s \<and>
     pending s' = (if True \<in> set bs then 1 else pending s)"
proof (induction bs arbitrary: s)
  case Nil
  then show ?case by simp
next
  case (Cons b bs)
  show ?case
  proof (cases b)
    case True
    let ?s1 = "s\<lparr>rl := tryReload (rl s)\<rparr>"
    have ok1: "reloader_ok (rl ?s1)" using Cons.prems(1) by (simp add: tryReload_keeps_ok)
    have b1: "burst bs ?s1 = Some s'" using Cons.prems(2) True by simp
    have p1: "pending ?s1 = 1" "potential ?s1 = potential s"
      using Cons.prems(1)
      by (simp_all add: tryReload_ok pending_def potential_def reloads_def)
    from Cons.IH [OF ok1 b1] p1 True show ?thesis by simp
  next
    case False
    with Cons.prems(2) obtain s1 where
      w: "worker (rl s) \<noteq> W_Await" and 1: "worker_step s = Some s1" and b1: "burst bs s1 = Some s'"
      by (auto split: if_splits option.splits)
    have ok1: "reloader_ok (rl s1)" by (rule worker_step_ok [OF Cons.prems(1) 1])
    from w 1 Cons.prems(1) have p1: "pending s1 = pending s" "potential s1 = potential s"
      by (auto simp: worker_step_def pending_def potential_def reloads_def count_emit
          reloader_ok_def split: worker_pc.splits)
    from Cons.IH [OF ok1 b1] p1 False show ?thesis by simp
  qed
qed

lemma drain_blocked: "worker_step s = None \<Longrightarrow> drain n s = s"
  by (cases n) simp_all

lemma await_empty_blocked:
  "reloader_ok (rl s) \<Longrightarrow> worker (rl s) = W_Await \<Longrightarrow> pending s = 0 \<Longrightarrow> worker_step s = None"
  by (simp add: worker_step_def recv_def pending_def reloader_ok_def)

lemma step_start:
  "worker (rl s) = W_Start \<Longrightarrow>
     \<exists>s1. worker_step s = Some s1 \<and> worker (rl s1) = W_Await \<and> pending s1 = pending s \<and>
          reloads s1 = reloads s"
  by (simp add: worker_step_def pending_def reloads_def count_emit)

lemma step_dequeue:
  "reloader_ok (rl s) \<Longrightarrow> worker (rl s) = W_Await \<Longrightarrow> pending s = 1 \<Longrightarrow>
     \<exists>s1. worker_step s = Some s1 \<and> worker (rl s1) = W_Reloading \<and> pending s1 = 0 \<and>
          reloads s1 = reloads s"
  by (cases "ch_buf (reloadSignal (rl s))")
    (simp_all add: worker_step_def recv_def pending_def reloads_def count_emit)

lemma step_finish:
  "worker (rl s) = W_Reloading \<Longrightarrow>
     \<exists>s1. worker_step s = Some s1 \<and> worker (rl s1) = W_Await \<and> pending s1 = pending s \<and>
          reloads s1 = Suc (reloads s)"
  by (simp add: worker_step_def pending_def reloads_def count_emit)

lemma drain_from_await:
  assumes "reloader_ok (rl s)" "worker (rl s) = W_Await" "pending s = 1"
  shows "worker_step (drain (Suc (Suc n)) s) = None \<and> pending (drain (Suc (Suc n)) s) = 0 \<and>
         reloads (drain (Suc (Suc n)) s) = Suc (reloads s)"
proof -
  from step_dequeue [OF assms] obtain s1 where
    1: "worker_step s = Some s1" "worker (rl s1) = W_Reloading" "pending s1 = 0"
       "reloads s1 = reloads s" by blast
  from step_finish [OF 1(2)] obtain s2 where
    2: "worker_step s1 = Some s2" "worker (rl s2) = W_Await" "pending s2 = pending s1"
       "reloads s2 = Suc (reloads s1)" by blast
  have ok2: "reloader_ok (rl s2)"
    using worker_step_ok [OF worker_step_ok [OF assms(1) 1(1)] 2(1)] .
  have b: "worker_step s2 = None"
    using await_empty_blocked [OF ok2 2(2)] 1 2 by simp
  have "drain (Suc (Suc n)) s = s2" using 1 2 by (simp add: drain_blocked [OF b])
  with b 1 2 show ?thesis by simp
qed

lemma drain_all:
  assumes "reloader_ok (rl s)" "pending s = 1"
  shows "worker_step (drain (Suc (Suc (Suc n))) s) = None \<and>
         pending (drain (Suc (Suc (Suc n))) s) = 0 \<and>
         reloads (drain (Suc (Suc (Suc n))) s) = Suc (potential s)"
proof (cases "worker (rl s)")
  case W_Start
  from step_start [OF W_Start] obtain s1 where
    1: "worker_step s = Some s1" "worker (rl s1) = W_Await" "pending s1 = pending s"
       "reloads s1 = reloads s" by blast
  have ok1: "reloader_ok (rl s1)" by (rule worker_step_ok [OF assms(1) 1(1)])
  from drain_from_await [OF ok1 1(2), of n] 1 assms(2) W_Start show ?thesis
    by (simp add: potential_def)
next
  case W_Await
  from drain_from_await [OF assms(1) W_Await assms(2), of "Suc n"] W_Await show ?thesis
    by (simp add: potential_def)
next
  case W_Reloading
  from step_finish [OF W_Reloading] obtain s1 where
    1: "worker_step s = Some s1" "worker (rl s1) = W_Await" "pending s1 = pending s"
       "reloads s1 = Suc (reloads s)" by blast
  have ok1: "reloader_ok (rl s1)" by (rule worker_step_ok [OF assms(1) 1(1)])
  from drain_from_await [OF ok1 1(2), of n] 1 assms(2) W_Reloading show ?thesis
    by (simp add: potential_def)
next
  case W_Exit
  with assms(1) show ?thesis by (simp add: reloader_ok_def)
qed

lemma triggers_return: "\<exists>s'. burst (replicate N True) s = Some s'"
  by (induction N arbitrary: s) simp_all

lemma step_reloader_ok:
  assumes "reloader_ok (rl s)" "step ev s = Some s'"
  shows "reloader_ok (rl s')"
proof (cases ev)
  case (Loop k)
  with assms show ?thesis
    by (cases k) (auto simp: tryReload_keeps_ok split: option.splits)
next
  case Worker
  with assms show ?thesis by (simp add: worker_step_ok)
next
  case TimerFire
  with assms tryReload_keeps_ok [of "rl s"] show ?thesis
    by (auto simp: timer_fire_def reloader_ok_def split: if_splits)
qed (use assms in \<open>auto split: option.splits if_splits\<close>)

lemma exec_reloader_ok:
  "reloader_ok (rl s) \<Longrightarrow> exec es s = Some s' \<Longrightarrow> reloader_ok (rl s')"
proof (induction es arbitrary: s)
  case Nil
  then show ?case by simp
next
  case (Cons ev evs)
  then obtain s1 where 1: "step ev s = Some s1" and 2: "exec evs s1 = Some s'"
    by (auto split: option.splits)
  from Cons.IH [OF step_reloader_ok [OF Cons.prems(1) 1] 2] show ?case .
qed

lemma run_reloader_ok:
  "run_begin e c = Inr s0 \<Longrightarrow> exec es s0 = Some s \<Longrightarrow> reloader_ok (rl s)"
  using exec_reloader_ok [of s0 es s] run_begin_rl [of e c s0] launchReloader_ok by simp

lemma newApp_envR: "newApp envR [] = Inr appR"
  by (simp add: newApp_def initialize_def envR_def env0_def fresh_def appR_def zero_config_def
      can_recv_def make_chan_def emit_def close_chan_def)

lemma run_begin_appR: "run_begin envR appR = Inr sysR"
  by (simp add: run_begin_def launchServer_def beginLeaderWatch_def sysR_def appR_def envR_def
      env0_def fresh_def zero_config_def can_recv_def can_send_def send_def make_chan_def
      close_chan_def emit_def)

lemma exec_sysR: "exec [Worker, TimerFire, Worker] sysR = Some sysF"
  by (simp add: sysR_def sysF_def appR_def worker_step_def timer_fire_def launchReloader_def
      tryReload_def send_def can_send_def make_chan_def recv_def emit_def fresh_def
      zero_config_def reloadTimeout_def)

lemma burst_sysF: "burst [True, True, False, True] sysF = Some sysB"
  by (simp add: sysR_def sysF_def sysB_def appR_def worker_step_def
      tryReload_def send_def can_send_def make_chan_def recv_def emit_def fresh_def
      zero_config_def reloadTimeout_def)

lemma reloads_example: "reloads (drain 3 sysB) = 2" "reloads sysF = 0" "pending sysB = 1"
  by (simp_all add: numeral_3_eq_3 sysR_def sysF_def sysB_def appR_def worker_step_def
      make_chan_def recv_def emit_def fresh_def reloads_def pending_def
      zero_config_def reloadTimeout_def)

text \<open>
  C2. \<^verbatim>\<open>reloadSignal\<close> has capacity 1. In every state \<open>s\<close> of a run, take a burst of calls
  of \<^verbatim>\<open>tryReload\<close>, at least one, during which the reloader's goroutine does not take a
  request from the channel (a reload in progress may return). Every call returns; at most
  one request is pending after each of them, and one is pending after the burst. When the
  goroutine then runs until it blocks on the empty channel, the reloads completed since
  \<open>s\<close> are two when a reload was in progress in \<open>s\<close> and one otherwise, whatever the
  number of calls.
\<close>

theorem reload_requests_coalesce:
  assumes "run_begin e c = Inr s0" and "exec es s0 = Some s"
    and "burst bs s = Some s'" and "True \<in> set bs" and "3 \<le> n"
  shows "ch_cap (reloadSignal (rl s)) = 1 \<and> pending s' = 1 \<and>
         (burst (take k bs) s = Some sk \<longrightarrow> pending sk \<le> 1) \<and>
         (\<exists>t. burst (replicate N True) s = Some t \<and> pending t \<le> 1) \<and>
         worker_step (drain n s') = None \<and> pending (drain n s') = 0 \<and>
         reloads (drain n s') = reloads s + (if worker (rl s) = W_Reloading then 2 else 1) \<and>
         reloads s + 1 \<le> reloads (drain n s') \<and> reloads (drain n s') \<le> reloads s + 2"
proof -
  have ok: "reloader_ok (rl s)" by (rule run_reloader_ok [OF assms(1,2)])
  from burst_inv [OF ok assms(3)] assms(4) have
    ok': "reloader_ok (rl s')" and pot: "potential s' = potential s" and p: "pending s' = 1"
    by simp_all
  from assms(5) obtain m where n: "n = Suc (Suc (Suc m))"
    by (metis add_Suc_right add_Suc_shift le_Suc_ex numeral_3_eq_3 plus_nat.simps(1))
  from drain_all [OF ok' p, of m] n pot have
    d: "worker_step (drain n s') = None" "pending (drain n s') = 0"
       "reloads (drain n s') = Suc (potential s)" by simp_all
  have pre: "pending t \<le> 1" if "burst xs s = Some t" for xs t
    using burst_inv [OF ok that] by (simp add: reloader_ok_def pending_def)
  from triggers_return [of N s] obtain t where t: "burst (replicate N True) s = Some t"
    by blast
  from pre [OF t] t have tr: "\<exists>t. burst (replicate N True) s = Some t \<and> pending t \<le> 1"
    by blast
  have cap: "ch_cap (reloadSignal (rl s)) = 1" using ok by (simp add: reloader_ok_def)
  from cap p d pre [of "take k bs" sk] tr show ?thesis
    by (simp add: potential_def)
qed

theorem reload_requests_coalesce_witness:
  "run_begin envR appR = Inr sysR \<and> exec [Worker, TimerFire, Worker] sysR = Some sysF \<and>
   burst [True, True, False, True] sysF = Some sysB \<and> True \<in> set [True, True, False, True] \<and>
   worker (rl sysF) = W_Reloading \<and> pending sysB = 1 \<and>
   reloads sysF = 0 \<and> reloads (drain 3 sysB) = 2"
proof -
  have a: "True \<in> set [True, True, False, True]" and b: "(3::nat) \<le> 3" by simp_all
  have w: "worker (rl sysF) = W_Reloading" by (simp add: sysF_def)
  from reload_requests_coalesce [OF run_begin_appR exec_sysR burst_sysF a b]
    run_begin_appR exec_sysR burst_sysF a w reloads_example
  show ?thesis by blast
qed

section \<open>Reloads run one at a time\<close>

lemma quiet_in_progress: "quiet xs \<Longrightarrow> in_progress xs n = Some n"
  by (induction xs n rule: in_progress.induct) (simp_all add: quiet_def)

lemma in_progress_append:
  "in_progress (xs @ ys) n = (case in_progress xs n of None \<Rightarrow> None | Some m \<Rightarrow> in_progress ys m)"
  by (induction xs n rule: in_progress.induct) simp_all

lemma in_progress_emit:
  "in_progress (calls (emit x c)) n =
     (case in_progress (calls c) n of None \<Rightarrow> None | Some m \<Rightarrow> in_progress [x] m)"
  by (simp add: emit_def in_progress_append)

lemma register_quiet: "register x c = Inr c' \<Longrightarrow> quiet (calls c) \<Longrightarrow> quiet (calls c')"
  by (cases x)
    (auto simp: app_OnPreload_def app_OnPostload_def app_AddFilter_def app_RegisterWS_def
      emit_def quiet_def split: if_splits option.splits)

lemma register_all_quiet:
  "register_all xs c = Inr c' \<Longrightarrow> quiet (calls c) \<Longrightarrow> quiet (calls c')"
proof (induction xs arbitrary: c)
  case Nil
  then show ?case by simp
next
  case (Cons x xs)
  then obtain c1 where 1: "register x c = Inr c1" and 2: "register_all xs c1 = Inr c'"
    by (auto split: sum.splits)
  from Cons.IH [OF 2 register_quiet [OF 1 Cons.prems(2)]] show ?case .
qed

lemma launchPlugin_quiet:
  assumes "launchPlugin n p c = Inr c'" "quiet (calls c)"
  shows "quiet (calls c')"
proof -
  let ?c2 = "emit (PluginStart n (p_id p)) (emit (LogVerbose ''starting plugin %q'' [n]) c)"
  from assms(1) obtain c3 where
    3: "register_all (p_start p) ?c2 = Inr c3"
    and c': "c' = emit (GoDoneWatcher n) (if p_errch p then emit (GoErrForwarder n) c3 else c3)"
    by (auto simp: launchPlugin_def split: sum.splits)
  have "quiet (calls ?c2)" using assms(2) by (simp add: emit_def quiet_def)
  from register_all_quiet [OF 3 this] c' show ?thesis
    by (simp add: emit_def quiet_def)
qed

lemma launch_third_party_quiet:
  "launch_third_party e ps c = Inr c' \<Longrightarrow> quiet (calls c) \<Longrightarrow> quiet (calls c')"
proof (induction ps arbitrary: c)
  case Nil
  then show ?case by simp
next
  case (Cons pc pcs)
  show ?case
  proof (cases "pc_Name pc = []")
    case True
    let ?c1 = "emit (LogError ''failed to register plugin with empty name'' []) c"
    have q: "quiet (calls ?c1)" using Cons.prems(2) by (simp add: emit_def quiet_def)
    from Cons.prems(1) True have "launch_third_party e pcs ?c1 = Inr c'" by simp
    from Cons.IH [OF this q] show ?thesis .
  next
    case False
    show ?thesis
    proof (cases "plugins_New e (pc_Name pc) (pc_Settings pc)")
      case (Inl er)
      let ?c1 = "emit (LogError ''failed to create plugin: %v'' [err_string er]) c"
      have q: "quiet (calls ?c1)" using Cons.prems(2) by (simp add: emit_def quiet_def)
      from Cons.prems(1) False Inl have "launch_third_party e pcs ?c1 = Inr c'" by simp
      from Cons.IH [OF this q] show ?thesis .
    next
      case (Inr p)
      with Cons.prems(1) False obtain c1 where
        1: "launchPlugin (pc_Name pc) p c = Inr c1" and 2: "launch_third_party e pcs c1 = Inr c'"
        by (auto split: sum.splits)
      from Cons.IH [OF 2 launchPlugin_quiet [OF 1 Cons.prems(2)]] show ?thesis .
    qed
  qed
qed

lemma initialize_quiet:
  assumes "initialize e c = Inr c'" "quiet (calls c)"
  shows "quiet (calls c')"
proof -
  obtain cfg h where sc: "SetConfig e (heap c) = (cfg, h)" by (cases "SetConfig e (heap c)")
  let ?c1 = "emit ResolverNew (c\<lparr>config := cfg, heap := h\<rparr>)"
  let ?r1 = "if HttpOn cfg then launchPlugin ''HTTP server'' (NewAPIPlugin e) ?c1 else Inr ?c1"
  have q1: "quiet (calls ?c1)" using assms(2) by (simp add: emit_def quiet_def)
  have cf: "config ?c1 = cfg" by (simp add: emit_def)
  have nr: "\<not> can_recv (ready c)"
    using assms(1) by (cases "can_recv (ready c)") (simp_all add: initialize_def)
  from assms(1) have
    i: "(case ?r1 of
           Inl f \<Rightarrow> Inl f
         | Inr c2 \<Rightarrow>
             (case launch_third_party e
                     (case Plugins (config c2) of None \<Rightarrow> [] | Some ps \<Rightarrow> ps) c2 of
                Inl f \<Rightarrow> Inl f
              | Inr c3 \<Rightarrow> Inr (c3\<lparr>ready := close_chan (ready c3)\<rparr>))) = Inr c'"
    by (simp add: initialize_def Let_def sc cf nr)
  then obtain c2 where 2: "?r1 = Inr c2" by (cases ?r1) simp_all
  with i obtain c3 where
    3: "launch_third_party e (case Plugins (config c2) of None \<Rightarrow> [] | Some ps \<Rightarrow> ps) c2 = Inr c3"
    and c': "c' = c3\<lparr>ready := close_chan (ready c3)\<rparr>"
    by (cases "launch_third_party e (case Plugins (config c2) of None \<Rightarrow> [] | Some ps \<Rightarrow> ps) c2")
      auto
  have q2: "quiet (calls c2)"
  proof (cases "HttpOn cfg")
    case True
    with 2 have "launchPlugin ''HTTP server'' (NewAPIPlugin e) ?c1 = Inr c2" by simp
    from launchPlugin_quiet [OF this q1] show ?thesis .
  next
    case False
    with 2 q1 show ?thesis by auto
  qed
  from launch_third_party_quiet [OF 3 q2] c' show ?thesis by simp
qed

lemma newApp_quiet: "newApp e h = Inr c \<Longrightarrow> quiet (calls c)"
  using initialize_quiet [of e "fresh h" c] by (simp add: newApp_def fresh_def quiet_def)

lemma run_begin_reload_inv:
  assumes "quiet (calls c)" "run_begin e c = Inr s"
  shows "reload_inv s"
proof -
  from assms(2) have "quiet (calls (sapp s))"
    using assms(1)
    by (auto simp: run_begin_def launchServer_def beginLeaderWatch_def emit_def quiet_def
        split: if_splits sum.splits prod.splits option.splits)
  with run_begin_rl [OF assms(2)] show ?thesis
    by (simp add: reload_inv_def quiet_in_progress launchReloader_def)
qed

lemma step_reload_inv:
  assumes "reload_inv s" "step ev s = Some s'"
  shows "reload_inv s'"
proof (cases ev)
  case (Loop k)
  with assms show ?thesis
    by (cases k) (auto simp: reload_inv_def in_progress_emit tryReload_worker split: option.splits)
next
  case Worker
  with assms show ?thesis
    by (auto simp: reload_inv_def worker_step_def in_progress_emit
        split: worker_pc.splits option.splits if_splits)
next
  case TimerFire
  with assms show ?thesis
    by (auto simp: reload_inv_def timer_fire_def tryReload_worker split: if_splits)
next
  case (DnsSends er)
  with assms show ?thesis by (auto simp: reload_inv_def split: option.splits)
next
  case ZkLeads
  with assms show ?thesis by (auto simp: reload_inv_def split: option.splits if_splits)
next
  case (ZkSends er)
  with assms show ?thesis by (auto simp: reload_inv_def split: option.splits if_splits)
qed

lemma exec_reload_inv: "reload_inv s \<Longrightarrow> exec es s = Some s' \<Longrightarrow> reload_inv s'"
proof (induction es arbitrary: s)
  case Nil
  then show ?case by simp
next
  case (Cons ev evs)
  then obtain s1 where 1: "step ev s = Some s1" and 2: "exec evs s1 = Some s'"
    by (auto split: option.splits)
  from Cons.IH [OF step_reload_inv [OF Cons.prems(1) 1] 2] show ?case .
qed

lemma sint_reloadTimeout:
  assumes "0 \<le> sint (RefreshSeconds cfg)" "sint (RefreshSeconds cfg) \<le> 9223372036"
  shows "sint (reloadTimeout cfg) = 1000000000 * sint (RefreshSeconds cfg)"
proof -
  have "sint (reloadTimeout cfg) = signed_take_bit 63 (1000000000 * sint (RefreshSeconds cfg))"
    by (simp add: reloadTimeout_def sint_word_ariths)
  also have "\<dots> = 1000000000 * sint (RefreshSeconds cfg)"
    using assms by (intro signed_take_bit_int_eq_self) simp_all
  finally show ?thesis .
qed

text \<open>
  C9. In every state of a run of a supervisor that \<^verbatim>\<open>newApp\<close> returned: when the
  reloader's goroutine awaits a request and one is pending, its step takes that request,
  which empties the channel, and starts one \<^verbatim>\<open>Reload\<close>; when it is inside \<^verbatim>\<open>Reload\<close>,
  its step is the return of that call, the log, and the reset of the timer to
  \<^verbatim>\<open>time.Second * RefreshSeconds\<close>, after which it awaits the next request. The calls of
  \<^verbatim>\<open>Reload\<close> made so far are well bracketed, so no two overlap, and one is in progress
  exactly when the goroutine is inside \<^verbatim>\<open>Reload\<close>. At most one request is pending. For a
  refresh period from 0 to 9223372036 seconds the timer's period in nanoseconds is
  1000000000 times the period in seconds.
\<close>

theorem reloads_one_at_a_time:
  assumes "newApp e h = Inr c" and "run_begin e c = Inr s0" and "exec es s0 = Some s"
  shows "(worker (rl s) = W_Await \<and> 0 < pending s \<longrightarrow>
            worker_step s =
              Some (s\<lparr>sapp := emit ResolverReloadBegin (sapp s),
                      rl := (rl s)\<lparr>reloadSignal := (reloadSignal (rl s))\<lparr>ch_buf := []\<rparr>,
                                   worker := W_Reloading\<rparr>\<rparr>)) \<and>
         (worker (rl s) = W_Reloading \<longrightarrow>
            worker_step s =
              Some (s\<lparr>sapp :=
                        (sapp s)\<lparr>calls :=
                                   calls (sapp s) @
                                   [ResolverReloadEnd, PrintCurLog,
                                    TimerReset (reloadTimeout (config c))]\<rparr>,
                      rl := (rl s)\<lparr>worker := W_Await, timer_armed := True\<rparr>\<rparr>)) \<and>
         in_progress (calls (sapp s)) 0 = Some (if worker (rl s) = W_Reloading then 1 else 0) \<and>
         pending s \<le> 1 \<and>
         (0 \<le> sint (RefreshSeconds (config c)) \<and> sint (RefreshSeconds (config c)) \<le> 9223372036 \<longrightarrow>
            sint (reloadTimeout (config c)) = 1000000000 * sint (RefreshSeconds (config c)))"
proof -
  have ok: "reloader_ok (rl s)" by (rule run_reloader_ok [OF assms(2,3)])
  have cfg: "config (sapp s) = config c"
    using run_begin_app [OF assms(2)] exec_app [OF assms(3)] by simp
  have inv: "reload_inv s"
    by (rule exec_reload_inv [OF run_begin_reload_inv [OF newApp_quiet [OF assms(1)] assms(2)] assms(3)])
  have 1: "worker_step s =
              Some (s\<lparr>sapp := emit ResolverReloadBegin (sapp s),
                      rl := (rl s)\<lparr>reloadSignal := (reloadSignal (rl s))\<lparr>ch_buf := []\<rparr>,
                                   worker := W_Reloading\<rparr>\<rparr>)"
    if "worker (rl s) = W_Await \<and> 0 < pending s"
  proof -
    from that ok have "ch_buf (reloadSignal (rl s)) = [()]"
      by (cases "ch_buf (reloadSignal (rl s))") (simp_all add: pending_def reloader_ok_def)
    with that show ?thesis by (simp add: worker_step_def recv_def)
  qed
  have 2: "worker_step s =
              Some (s\<lparr>sapp :=
                        (sapp s)\<lparr>calls :=
                                   calls (sapp s) @
                                   [ResolverReloadEnd, PrintCurLog,
                                    TimerReset (reloadTimeout (config c))]\<rparr>,
                      rl := (rl s)\<lparr>worker := W_Await, timer_armed := True\<rparr>\<rparr>)"
    if "worker (rl s) = W_Reloading"
    using that cfg by (simp add: worker_step_def emit_def)
  have 3: "pending s \<le> 1" using ok by (simp add: reloader_ok_def pending_def)
  from 1 2 3 inv sint_reloadTimeout [of "config c"] show ?thesis
    by (simp add: reload_inv_def)
qed

theorem reloads_one_at_a_time_witness:
  "newApp envR [] = Inr appR \<and> run_begin envR appR = Inr sysR \<and>
   exec [Worker, TimerFire, Worker] sysR = Some sysF \<and> worker (rl sysF) = W_Reloading \<and>
   map_option (calls \<circ> sapp) (worker_step sysF) =
     Some [ResolverNew, ResolverLaunchDNS, TimerAfterFunc 60000000000, ResolverReloadBegin,
           ResolverReloadEnd, PrintCurLog, TimerReset 60000000000] \<and>
   in_progress (calls (sapp sysF)) 0 = Some 1 \<and>
   sint (reloadTimeout (config appR)) = 60000000000"
proof -
  note t = reloads_one_at_a_time [OF newApp_envR run_begin_appR exec_sysR]
  have w: "worker (rl sysF) = W_Reloading" by (simp add: sysF_def)
  have r: "RefreshSeconds (config appR) = 60" "reloadTimeout (config appR) = 60000000000"
    by (simp_all add: appR_def fresh_def zero_config_def reloadTimeout_def)
  from t w have
    "worker_step sysF =
       Some (sysF\<lparr>sapp :=
                    (sapp sysF)\<lparr>calls :=
                                  calls (sapp sysF) @
                                  [ResolverReloadEnd, PrintCurLog,
                                   TimerReset (reloadTimeout (config appR))]\<rparr>,
                  rl := (rl sysF)\<lparr>worker := W_Await, timer_armed := True\<rparr>\<rparr>)"
    by blast
  then have a: "map_option (calls \<circ> sapp) (worker_step sysF) =
     Some [ResolverNew, ResolverLaunchDNS, TimerAfterFunc 60000000000, ResolverReloadBegin,
           ResolverReloadEnd, PrintCurLog, TimerReset 60000000000]"
    by (simp add: r) (simp add: sysF_def)
  from t w have b: "in_progress (calls (sapp sysF)) 0 = Some 1" by simp
  have c: "sint (reloadTimeout (config appR)) = 60000000000" by (simp add: r)
  from newApp_envR run_begin_appR exec_sysR w a b c show ?thesis by blast
qed

end
